theory Spec2Isabelle
  imports Main "HOL-Library.Word" "HOL-Library.Monad_Syntax"
begin

section \<open>The abstract syntax tree\<close>

text \<open>
  Identifiers are interned strings: two identifiers are the same pointer exactly when they
  are the same text, so a symbol is modelled by its text.  Source locations are carried by
  the nodes but read by none of the operations below, and are left out.
\<close>

type_synonym symbol = string

datatype literal_tag =
    TAG_TYPE | TAG_VOID | TAG_U8 | TAG_S8 | TAG_U16 | TAG_S16 | TAG_U32 | TAG_S32
  | TAG_U64 | TAG_S64 | TAG_BOOL | TAG_INTEGRAL | TAG_BOOLEAN

datatype literal =
    LIT_TYPE | LIT_VOID | LIT_U8 | LIT_S8 | LIT_U16 | LIT_S16 | LIT_U32 | LIT_S32
  | LIT_U64 | LIT_S64 | LIT_BOOL | LIT_INTEGRAL "64 word" | LIT_BOOLEAN bool

datatype binary_op =
    BIN_OP_EQ | BIN_OP_NE | BIN_OP_LT | BIN_OP_LTE | BIN_OP_GT | BIN_OP_GTE
  | BIN_OP_ADD | BIN_OP_SUB | BIN_OP_ANDTHEN

text \<open>
  The parallel arrays of a node (\<open>param_types\<close> and \<open>param_names\<close> of one length
  \<open>num_params\<close>, and so on) are lists of pairs; a parameter name of a function type may
  be \<open>NULL\<close>.  A declaration carries its initial value only when \<open>is_initialized\<close>.
  The two arrays \<open>ifs\<close> and \<open>thens\<close> of a conditional statement are one list of
  pairs; a block is the list of its statements.
\<close>

datatype expr =
    EXPR_LITERAL literal
  | EXPR_IDENT symbol
  | EXPR_BIN_OP binary_op expr expr
  | EXPR_IFTHENELSE expr expr expr
  | EXPR_FUNC_TYPE expr "(expr \<times> symbol option) list"
  | EXPR_LAMBDA "(expr \<times> symbol) list" expr
  | EXPR_CALL expr "expr list"
  | EXPR_STRUCT "(expr \<times> symbol) list"
  | EXPR_UNION "(expr \<times> symbol) list"
  | EXPR_PACK expr "(symbol \<times> expr) list"
  | EXPR_MEMBER expr symbol
  | EXPR_POINTER expr
  | EXPR_REFERENCE expr
  | EXPR_DEREFERENCE expr
  | EXPR_STATEMENT statement
and statement =
    STATEMENT_EMPTY
  | STATEMENT_EXPR expr
  | STATEMENT_RETURN expr
  | STATEMENT_BLOCK "statement list"
  | STATEMENT_DECL expr symbol "expr option"
  | STATEMENT_IFTHENELSE "(expr \<times> statement list) list" "statement list"

type_synonym block = "statement list"

section \<open>Structural equality\<close>

primrec tag_of :: "literal \<Rightarrow> literal_tag" where
  "tag_of LIT_TYPE = TAG_TYPE"
| "tag_of LIT_VOID = TAG_VOID"
| "tag_of LIT_U8 = TAG_U8"
| "tag_of LIT_S8 = TAG_S8"
| "tag_of LIT_U16 = TAG_U16"
| "tag_of LIT_S16 = TAG_S16"
| "tag_of LIT_U32 = TAG_U32"
| "tag_of LIT_S32 = TAG_S32"
| "tag_of LIT_U64 = TAG_U64"
| "tag_of LIT_S64 = TAG_S64"
| "tag_of LIT_BOOL = TAG_BOOL"
| "tag_of (LIT_INTEGRAL n) = TAG_INTEGRAL"
| "tag_of (LIT_BOOLEAN b) = TAG_BOOLEAN"

definition literal_equal :: "literal \<Rightarrow> literal \<Rightarrow> bool" where
  "literal_equal x y =
     (if tag_of x \<noteq> tag_of y then False
      else case x of
          LIT_INTEGRAL n \<Rightarrow> (case y of LIT_INTEGRAL m \<Rightarrow> n = m | _ \<Rightarrow> True)
        | LIT_BOOLEAN a \<Rightarrow> (case y of LIT_BOOLEAN b \<Rightarrow> a = b | _ \<Rightarrow> True)
        | _ \<Rightarrow> True)"

text \<open>
  The loops of \<open>expr_equal\<close> run over two arrays of one length (the lengths are compared
  before each loop) and return false at the first difference.  The first component of a
  pair of the left list is the comparison with the left element already supplied.
\<close>

fun args_equal :: "(expr \<Rightarrow> bool) list \<Rightarrow> expr list \<Rightarrow> bool" where
  "args_equal (eq # eqs) (y # ys) = (if \<not> eq y then False else args_equal eqs ys)"
| "args_equal _ _ = True"

fun fields_equal :: "((expr \<Rightarrow> bool) \<times> 'n) list \<Rightarrow> (expr \<times> 'n) list \<Rightarrow> bool" where
  "fields_equal ((eq, n) # xs) ((t, m) # ys) =
     (if \<not> eq t \<or> n \<noteq> m then False else fields_equal xs ys)"
| "fields_equal _ _ = True"

fun assigns_equal :: "(symbol \<times> (expr \<Rightarrow> bool)) list \<Rightarrow> (symbol \<times> expr) list \<Rightarrow> bool" where
  "assigns_equal ((n, eq) # xs) ((m, a) # ys) =
     (if n \<noteq> m \<or> \<not> eq a then False else assigns_equal xs ys)"
| "assigns_equal _ _ = True"

text \<open>
  The loop of the lambda case compares \<open>x->lambda.param_types\<close> with
  \<open>y->lambda.param_types\<close>, the first elements of the two arrays, at every index.
\<close>

fun lambda_params_equal :: "bool \<Rightarrow> symbol list \<Rightarrow> symbol list \<Rightarrow> bool" where
  "lambda_params_equal first_equal (n # ns) (m # ms) =
     (if \<not> first_equal \<or> n \<noteq> m then False else lambda_params_equal first_equal ns ms)"
| "lambda_params_equal first_equal _ _ = True"

primrec expr_equal :: "expr \<Rightarrow> expr \<Rightarrow> bool" where
  "expr_equal (EXPR_LITERAL l) y =
     (case y of EXPR_LITERAL m \<Rightarrow> literal_equal l m | _ \<Rightarrow> False)"
| "expr_equal (EXPR_IDENT s) y =
     (case y of EXPR_IDENT t \<Rightarrow> s = t | _ \<Rightarrow> False)"
| "expr_equal (EXPR_BIN_OP op x1 x2) y =
     (case y of
        EXPR_BIN_OP op' y1 y2 \<Rightarrow> op \<noteq> op' \<and> expr_equal x1 y1 \<and> expr_equal x2 y2
      | _ \<Rightarrow> False)"
| "expr_equal (EXPR_IFTHENELSE xp xt xe) y =
     (case y of
        EXPR_IFTHENELSE yp yt ye \<Rightarrow> expr_equal xp yp \<and> expr_equal xt yt \<and> expr_equal xe ye
      | _ \<Rightarrow> False)"
| "expr_equal (EXPR_FUNC_TYPE xr xps) y =
     (case y of
        EXPR_FUNC_TYPE yr yps \<Rightarrow>
          if \<not> expr_equal xr yr \<or> length xps \<noteq> length yps then False
          else fields_equal (map (map_prod expr_equal id) xps) yps
      | _ \<Rightarrow> False)"
| "expr_equal (EXPR_LAMBDA xps xb) y =
     (case y of
        EXPR_LAMBDA yps yb \<Rightarrow>
          if length xps \<noteq> length yps then False
          else if \<not> (case map (map_prod expr_equal id) xps of
                        [] \<Rightarrow> True
                      | (eq0, _) # _ \<Rightarrow>
                          (case yps of
                             [] \<Rightarrow> True
                           | (t0, _) # _ \<Rightarrow>
                               lambda_params_equal (eq0 t0) (map snd xps) (map snd yps)))
          then False
          else expr_equal xb yb
      | _ \<Rightarrow> False)"
| "expr_equal (EXPR_CALL xf xargs) y =
     (case y of
        EXPR_CALL yf yargs \<Rightarrow>
          if \<not> expr_equal xf yf \<or> length xargs \<noteq> length yargs then False
          else args_equal (map expr_equal xargs) yargs
      | _ \<Rightarrow> False)"
| "expr_equal (EXPR_STRUCT xfs) y =
     (case y of
        EXPR_STRUCT yfs \<Rightarrow>
          if length xfs \<noteq> length yfs then False
          else fields_equal (map (map_prod expr_equal id) xfs) yfs
      | _ \<Rightarrow> False)"
| "expr_equal (EXPR_UNION xfs) y =
     (case y of
        EXPR_UNION yfs \<Rightarrow>
          if length xfs \<noteq> length yfs then False
          else fields_equal (map (map_prod expr_equal id) xfs) yfs
      | _ \<Rightarrow> False)"
| "expr_equal (EXPR_PACK xt xas) y =
     (case y of
        EXPR_PACK yt yas \<Rightarrow>
          if \<not> expr_equal xt yt \<or> length xas \<noteq> length yas then False
          else assigns_equal (map (map_prod id expr_equal) xas) yas
      | _ \<Rightarrow> False)"
| "expr_equal (EXPR_MEMBER xr xf) y =
     (case y of
        EXPR_MEMBER yr yf \<Rightarrow> if \<not> expr_equal xr yr \<or> xf \<noteq> yf then False else True
      | _ \<Rightarrow> False)"
| "expr_equal (EXPR_POINTER x1) y =
     (case y of EXPR_POINTER y1 \<Rightarrow> expr_equal x1 y1 | _ \<Rightarrow> False)"
| "expr_equal (EXPR_REFERENCE x1) y =
     (case y of EXPR_REFERENCE y1 \<Rightarrow> expr_equal x1 y1 | _ \<Rightarrow> False)"
| "expr_equal (EXPR_DEREFERENCE x1) y =
     (case y of EXPR_DEREFERENCE y1 \<Rightarrow> expr_equal x1 y1 | _ \<Rightarrow> False)"
| "expr_equal (EXPR_STATEMENT s) y = False"

section \<open>Deep copy\<close>

primrec expr_copy :: "expr \<Rightarrow> expr" and statement_copy :: "statement \<Rightarrow> statement" where
  "expr_copy (EXPR_LITERAL l) = EXPR_LITERAL l"
| "expr_copy (EXPR_IDENT s) = EXPR_IDENT s"
| "expr_copy (EXPR_BIN_OP op x1 x2) = EXPR_BIN_OP op (expr_copy x1) (expr_copy x2)"
| "expr_copy (EXPR_IFTHENELSE p t e) =
     EXPR_IFTHENELSE (expr_copy p) (expr_copy t) (expr_copy e)"
| "expr_copy (EXPR_FUNC_TYPE r ps) =
     EXPR_FUNC_TYPE (expr_copy r) (map (map_prod expr_copy id) ps)"
| "expr_copy (EXPR_LAMBDA ps b) = EXPR_LAMBDA (map (map_prod expr_copy id) ps) (expr_copy b)"
| "expr_copy (EXPR_CALL f args) = EXPR_CALL (expr_copy f) (map expr_copy args)"
| "expr_copy (EXPR_STRUCT fs) = EXPR_STRUCT (map (map_prod expr_copy id) fs)"
| "expr_copy (EXPR_UNION fs) = EXPR_UNION (map (map_prod expr_copy id) fs)"
| "expr_copy (EXPR_PACK t as) = EXPR_PACK (expr_copy t) (map (map_prod id expr_copy) as)"
| "expr_copy (EXPR_MEMBER r f) = EXPR_MEMBER (expr_copy r) f"
| "expr_copy (EXPR_POINTER x) = EXPR_POINTER (expr_copy x)"
| "expr_copy (EXPR_REFERENCE x) = EXPR_REFERENCE (expr_copy x)"
| "expr_copy (EXPR_DEREFERENCE x) = EXPR_DEREFERENCE (expr_copy x)"
| "expr_copy (EXPR_STATEMENT s) = EXPR_STATEMENT (statement_copy s)"
| "statement_copy STATEMENT_EMPTY = STATEMENT_EMPTY"
| "statement_copy (STATEMENT_EXPR e) = STATEMENT_EXPR (expr_copy e)"
| "statement_copy (STATEMENT_RETURN e) = STATEMENT_RETURN (expr_copy e)"
| "statement_copy (STATEMENT_BLOCK b) = STATEMENT_BLOCK (map statement_copy b)"
| "statement_copy (STATEMENT_DECL t n i) =
     STATEMENT_DECL (expr_copy t) n (map_option expr_copy i)"
| "statement_copy (STATEMENT_IFTHENELSE ifs els) =
     STATEMENT_IFTHENELSE (map (map_prod expr_copy (map statement_copy)) ifs)
       (map statement_copy els)"

definition block_copy :: "block \<Rightarrow> block" where
  "block_copy b = map statement_copy b"

section \<open>Free variables\<close>

text \<open>
  Modelled from the spec: the symbol set (\<open>symbol_set_empty\<close>, \<open>symbol_set_add\<close>,
  \<open>symbol_set_delete\<close>, \<open>symbol_set_contains\<close>, \<open>symbol_set_union\<close>), whose
  implementation is not part of the sources.  It is a finite set of symbols in which
  duplicates collapse; \<open>symbol_set_union dst src\<close> stores the union in \<open>dst\<close>.
\<close>

type_synonym symbol_set = "symbol set"

definition symbol_set_empty :: symbol_set where
  "symbol_set_empty = {}"

definition symbol_set_add :: "symbol_set \<Rightarrow> symbol \<Rightarrow> symbol_set" where
  "symbol_set_add fv s = insert s fv"

definition symbol_set_delete :: "symbol_set \<Rightarrow> symbol \<Rightarrow> symbol_set" where
  "symbol_set_delete fv s = fv - {s}"

definition symbol_set_contains :: "symbol_set \<Rightarrow> symbol \<Rightarrow> bool" where
  "symbol_set_contains fv s \<longleftrightarrow> s \<in> fv"

definition symbol_set_union :: "symbol_set \<Rightarrow> symbol_set \<Rightarrow> symbol_set" where
  "symbol_set_union dst src = dst \<union> src"

text \<open>Deleting the names of the parameters \<open>0 \<dots> i - 1\<close>; a \<open>NULL\<close> name is skipped.\<close>

definition delete_names :: "symbol list \<Rightarrow> symbol_set \<Rightarrow> symbol_set" where
  "delete_names names fv = fold (\<lambda>n fv. symbol_set_delete fv n) names fv"

definition delete_param_names :: "symbol option list \<Rightarrow> symbol_set \<Rightarrow> symbol_set" where
  "delete_param_names names fv =
     fold (\<lambda>n fv. case n of None \<Rightarrow> fv | Some x \<Rightarrow> symbol_set_delete fv x) names fv"

text \<open>
  The second loop of the function type case: the free variables of parameter type \<open>i\<close>
  lose the names of the parameters before it and are added to the result.  The list
  \<open>earlier\<close> holds the names \<open>param_names[0 \<dots> i - 1]\<close>.
\<close>

fun param_types_free_vars ::
  "symbol option list \<Rightarrow> (symbol_set \<times> symbol option) list \<Rightarrow> symbol_set \<Rightarrow> symbol_set" where
  "param_types_free_vars earlier [] free_vars = free_vars"
| "param_types_free_vars earlier ((free_vars_temp, n) # ps) free_vars =
     param_types_free_vars (earlier @ [n]) ps
       (symbol_set_union free_vars (delete_param_names earlier free_vars_temp))"

fun field_types_free_vars ::
  "symbol list \<Rightarrow> (symbol_set \<times> symbol) list \<Rightarrow> symbol_set \<Rightarrow> symbol_set" where
  "field_types_free_vars earlier [] free_vars = free_vars"
| "field_types_free_vars earlier ((free_vars_temp, n) # ps) free_vars =
     field_types_free_vars (earlier @ [n]) ps
       (symbol_set_union free_vars (delete_names earlier free_vars_temp))"

definition union_all :: "symbol_set list \<Rightarrow> symbol_set \<Rightarrow> symbol_set" where
  "union_all temps free_vars =
     fold (\<lambda>free_vars_temp free_vars. symbol_set_union free_vars free_vars_temp) temps free_vars"

text \<open>
  The loop of \<open>block_free_vars\<close> visits \<open>statements[num_statements - i - 1]\<close> for
  \<open>i = 0, 1, \<dots>\<close>: the statements in reverse.  Each statement comes with its own free
  variables.
\<close>

definition block_free_vars_loop :: "(statement \<times> symbol_set) list \<Rightarrow> symbol_set" where
  "block_free_vars_loop xs =
     fold (\<lambda>(statement, free_vars_temp) free_vars.
             symbol_set_union
               (case statement of
                  STATEMENT_DECL _ name _ \<Rightarrow> symbol_set_delete free_vars name
                | _ \<Rightarrow> free_vars)
               free_vars_temp)
       (rev xs) symbol_set_empty"

text \<open>
  The loop of the conditional statement: \<open>free_vars\<close> holds the free variables of the
  else block on entry; each round adds those of the condition, then calls
  \<open>block_free_vars\<close> on the then block with \<open>free_vars\<close> itself as the destination,
  which overwrites it, and adds those of the condition again.
\<close>

definition ifthenelse_free_vars_loop ::
  "(symbol_set \<times> symbol_set) list \<Rightarrow> symbol_set \<Rightarrow> symbol_set" where
  "ifthenelse_free_vars_loop xs free_vars =
     fold (\<lambda>(if_free_vars, then_free_vars) free_vars.
             let free_vars_temp = if_free_vars;
                 free_vars = symbol_set_union free_vars free_vars_temp;
                 free_vars = then_free_vars
             in symbol_set_union free_vars free_vars_temp)
       xs free_vars"

primrec expr_free_vars :: "expr \<Rightarrow> symbol_set"
  and statement_free_vars :: "statement \<Rightarrow> symbol_set" where
  "expr_free_vars (EXPR_LITERAL l) = symbol_set_empty"
| "expr_free_vars (EXPR_IDENT s) = symbol_set_add symbol_set_empty s"
| "expr_free_vars (EXPR_BIN_OP op x1 x2) =
     symbol_set_union (expr_free_vars x1) (expr_free_vars x2)"
| "expr_free_vars (EXPR_IFTHENELSE p t e) =
     symbol_set_union (symbol_set_union (expr_free_vars p) (expr_free_vars t))
       (expr_free_vars e)"
| "expr_free_vars (EXPR_FUNC_TYPE r ps) =
     param_types_free_vars [] (map (map_prod expr_free_vars id) ps)
       (delete_param_names (map snd ps) (expr_free_vars r))"
| "expr_free_vars (EXPR_LAMBDA ps b) =
     field_types_free_vars [] (map (map_prod expr_free_vars id) ps)
       (delete_names (map snd ps) (expr_free_vars b))"
| "expr_free_vars (EXPR_CALL f args) =
     union_all (map expr_free_vars args) (expr_free_vars f)"
| "expr_free_vars (EXPR_STRUCT fs) =
     field_types_free_vars [] (map (map_prod expr_free_vars id) fs) symbol_set_empty"
| "expr_free_vars (EXPR_UNION fs) =
     union_all (map fst (map (map_prod expr_free_vars id) fs)) symbol_set_empty"
| "expr_free_vars (EXPR_PACK t as) =
     union_all (map snd (map (map_prod id expr_free_vars) as)) (expr_free_vars t)"
| "expr_free_vars (EXPR_MEMBER r f) = expr_free_vars r"
| "expr_free_vars (EXPR_POINTER x) = expr_free_vars x"
| "expr_free_vars (EXPR_REFERENCE x) = expr_free_vars x"
| "expr_free_vars (EXPR_DEREFERENCE x) = expr_free_vars x"
| "expr_free_vars (EXPR_STATEMENT s) = statement_free_vars s"
| "statement_free_vars STATEMENT_EMPTY = symbol_set_empty"
| "statement_free_vars (STATEMENT_EXPR e) = expr_free_vars e"
| "statement_free_vars (STATEMENT_RETURN e) = expr_free_vars e"
| "statement_free_vars (STATEMENT_BLOCK b) =
     block_free_vars_loop (map (\<lambda>s. (s, statement_free_vars s)) b)"
| "statement_free_vars (STATEMENT_DECL t n i) =
     (case map_option expr_free_vars i of
        None \<Rightarrow> expr_free_vars t
      | Some free_vars_temp \<Rightarrow> symbol_set_union (expr_free_vars t) free_vars_temp)"
| "statement_free_vars (STATEMENT_IFTHENELSE ifs els) =
     ifthenelse_free_vars_loop
       (map (map_prod id block_free_vars_loop)
          (map (map_prod expr_free_vars (map (\<lambda>s. (s, statement_free_vars s)))) ifs))
       (block_free_vars_loop (map (\<lambda>s. (s, statement_free_vars s)) els))"

definition block_free_vars :: "block \<Rightarrow> symbol_set" where
  "block_free_vars b = block_free_vars_loop (map (\<lambda>s. (s, statement_free_vars s)) b)"

section \<open>Substitution\<close>

text \<open>
  Modelled from the spec: the symbol registry of the context and \<open>symbol_gensym\<close>, whose
  implementation is not part of the sources.  The registry holds the symbols interned so
  far; \<open>symbol_gensym\<close> returns a symbol that is derived textually from the base, differs
  from every symbol interned so far, and is interned from then on.  Here the fresh symbol
  is the base followed by more underscores than the longest interned symbol has characters.
\<close>

record Context =
  interns :: "symbol list"

definition longest :: "symbol list \<Rightarrow> nat" where
  "longest xs = fold (\<lambda>s n. max (length s) n) xs 0"

definition symbol_gensym :: "Context \<Rightarrow> symbol \<Rightarrow> symbol \<times> Context" where
  "symbol_gensym context base =
     (let new = base @ replicate (Suc (longest (interns context))) (CHR ''_'')
      in (new, context\<lparr>interns := new # interns context\<rparr>))"

text \<open>
  Substitution rewrites the term in place, may intern fresh symbols, and returns a flag.
  A call yields the flag, the term as it is left behind (also when the flag is false) and
  the context.  The recursion of \<open>expr_subst\<close> is not structural: a parameter type and
  the return type are substituted into again after they were rewritten.  The functions
  therefore take the depth of calls still allowed, and \<open>None\<close> stands for a call that
  would go deeper; \<open>expr_subst\<close> below supplies a depth that is always enough.
\<close>

type_synonym 'a subst_result = "(bool \<times> 'a \<times> Context) option"

type_synonym 'a subst = "Context \<Rightarrow> 'a \<Rightarrow> symbol \<Rightarrow> expr \<Rightarrow> 'a subst_result"

text \<open>
  A loop over an array that substitutes into each element and returns false at the first
  failure: the arguments of a call, the field types of a union, the statements of a block.
\<close>

fun subst_each :: "'a subst \<Rightarrow> Context \<Rightarrow> 'a list \<Rightarrow> symbol \<Rightarrow> expr \<Rightarrow> 'a list subst_result" where
  "subst_each S context [] name replacement = Some (True, [], context)"
| "subst_each S context (x # xs) name replacement =
     do {
       (ok, x', context1) \<leftarrow> S context x name replacement;
       if \<not> ok then Some (False, x' # xs, context1)
       else do {
         (ok', xs', context2) \<leftarrow> subst_each S context1 xs name replacement;
         Some (ok', x' # xs', context2)
       }
     }"

text \<open>
  The inner loop of the two binder cases runs \<open>j\<close> over the later parameters but
  substitutes into \<open>param_types[i]\<close> every time: the same slot, \<open>count\<close> times.
\<close>

fun subst_repeat :: "expr subst \<Rightarrow> nat \<Rightarrow> Context \<Rightarrow> expr \<Rightarrow> symbol \<Rightarrow> expr \<Rightarrow> expr subst_result" where
  "subst_repeat S 0 context e name replacement = Some (True, e, context)"
| "subst_repeat S (Suc count) context e name replacement =
     do {
       (ok, e', context1) \<leftarrow> S context e name replacement;
       if \<not> ok then Some (False, e', context1)
       else subst_repeat S count context1 e' name replacement
     }"

text \<open>
  The loop of \<open>expr_func_type_subst\<close> over the parameters from index \<open>i\<close> on, where
  \<open>(t, n) # ps\<close> are the parameters \<open>i, i + 1, \<dots>\<close> and \<open>ret_type\<close> is the return
  type as the earlier rounds left it.  It yields the return type and these parameters as
  they are left behind.  After the last parameter the return type is substituted into.
\<close>

fun expr_func_type_loop ::
  "expr subst \<Rightarrow> symbol_set \<Rightarrow> Context \<Rightarrow> expr \<Rightarrow> (expr \<times> symbol option) list \<Rightarrow> symbol \<Rightarrow> expr
   \<Rightarrow> (expr \<times> (expr \<times> symbol option) list) subst_result" where
  "expr_func_type_loop S free_vars context ret_type [] name replacement =
     do {
       (ok, ret_type', context1) \<leftarrow> S context ret_type name replacement;
       Some (ok, (ret_type', []), context1)
     }"
| "expr_func_type_loop S free_vars context ret_type ((t, n) # ps) name replacement =
     do {
       (ok, t', context1) \<leftarrow> S context t name replacement;
       if \<not> ok then Some (False, (ret_type, (t', n) # ps), context1)
       else case n of
         None \<Rightarrow>
           do {
             (ok', (ret_type', ps'), context') \<leftarrow>
               expr_func_type_loop S free_vars context1 ret_type ps name replacement;
             Some (ok', (ret_type', (t', n) # ps'), context')
           }
       | Some old_param_name \<Rightarrow>
           if old_param_name = name then Some (True, (ret_type, (t', n) # ps), context1)
           else if symbol_set_contains free_vars old_param_name then
             (let (new_param_name, context2) = symbol_gensym context1 old_param_name;
                  new_replacement = EXPR_IDENT new_param_name
              in do {
                (ok2, t'', context3) \<leftarrow>
                  subst_repeat S (length ps) context2 t' old_param_name new_replacement;
                if \<not> ok2 then
                  Some (False, (ret_type, (t'', Some new_param_name) # ps), context3)
                else do {
                  (ok3, ret_type1, context4) \<leftarrow>
                    S context3 ret_type old_param_name new_replacement;
                  if \<not> ok3 then
                    Some (False, (ret_type1, (t'', Some new_param_name) # ps), context4)
                  else do {
                    (ok', (ret_type', ps'), context') \<leftarrow>
                      expr_func_type_loop S free_vars context4 ret_type1 ps name replacement;
                    Some (ok', (ret_type', (t'', Some new_param_name) # ps'), context')
                  }
                }
              })
           else
             do {
               (ok', (ret_type', ps'), context') \<leftarrow>
                 expr_func_type_loop S free_vars context1 ret_type ps name replacement;
               Some (ok', (ret_type', (t', n) # ps'), context')
             }
     }"

definition expr_func_type_subst ::
  "expr subst \<Rightarrow> Context \<Rightarrow> expr \<Rightarrow> (expr \<times> symbol option) list \<Rightarrow> symbol \<Rightarrow> expr
   \<Rightarrow> expr subst_result" where
  "expr_func_type_subst S context ret_type ps name replacement =
     (let free_vars = expr_free_vars replacement
      in do {
        (ret_val, (ret_type', ps'), context') \<leftarrow>
          expr_func_type_loop S free_vars context ret_type ps name replacement;
        Some (ret_val, EXPR_FUNC_TYPE ret_type' ps', context')
      })"

text \<open>
  The inner loop of \<open>expr_lambda_subst\<close> is bounded by \<open>expr->func_type.num_params\<close>,
  read from a lambda node: the other member of the union.  What that read yields is fixed
  by the declaration of \<open>Expr\<close>, which is not part of the sources, so the model takes it
  as a parameter: \<open>layout ps\<close> is the value read from a lambda whose parameters are
  \<open>ps\<close> on entry.  Where the two \<open>num_params\<close> fields share their place, \<open>layout\<close>
  is \<open>length\<close>.  The inner loop runs \<open>j\<close> from \<open>i + 1\<close> while \<open>j\<close> is below that
  bound.
\<close>

type_synonym lambda_layout = "(expr \<times> symbol) list \<Rightarrow> nat"

fun expr_lambda_loop ::
  "expr subst \<Rightarrow> symbol_set \<Rightarrow> nat \<Rightarrow> nat \<Rightarrow> Context \<Rightarrow> expr \<Rightarrow> (expr \<times> symbol) list \<Rightarrow> symbol
   \<Rightarrow> expr \<Rightarrow> (expr \<times> (expr \<times> symbol) list) subst_result" where
  "expr_lambda_loop S free_vars bound i context body [] name replacement =
     do {
       (ok, body', context1) \<leftarrow> S context body name replacement;
       Some (ok, (body', []), context1)
     }"
| "expr_lambda_loop S free_vars bound i context body ((t, old_param_name) # ps) name
     replacement =
     do {
       (ok, t', context1) \<leftarrow> S context t name replacement;
       if \<not> ok then Some (False, (body, (t', old_param_name) # ps), context1)
       else if old_param_name = name then
         Some (True, (body, (t', old_param_name) # ps), context1)
       else if symbol_set_contains free_vars old_param_name then
         (let (new_param_name, context2) = symbol_gensym context1 old_param_name;
              new_replacement = EXPR_IDENT new_param_name
          in do {
            (ok2, t'', context3) \<leftarrow>
              subst_repeat S (bound - (i + 1)) context2 t' old_param_name new_replacement;
            if \<not> ok2 then Some (False, (body, (t'', new_param_name) # ps), context3)
            else do {
              (ok3, body1, context4) \<leftarrow> S context3 body old_param_name new_replacement;
              if \<not> ok3 then Some (False, (body1, (t'', new_param_name) # ps), context4)
              else do {
                (ok', (body', ps'), context') \<leftarrow>
                  expr_lambda_loop S free_vars bound (i + 1) context4 body1 ps name
                    replacement;
                Some (ok', (body', (t'', new_param_name) # ps'), context')
              }
            }
          })
       else
         do {
           (ok', (body', ps'), context') \<leftarrow>
             expr_lambda_loop S free_vars bound (i + 1) context1 body ps name replacement;
           Some (ok', (body', (t', old_param_name) # ps'), context')
         }
     }"

definition expr_lambda_subst ::
  "expr subst \<Rightarrow> lambda_layout \<Rightarrow> Context \<Rightarrow> (expr \<times> symbol) list \<Rightarrow> expr \<Rightarrow> symbol \<Rightarrow> expr
   \<Rightarrow> expr subst_result" where
  "expr_lambda_subst S layout context ps body name replacement =
     (let free_vars = expr_free_vars replacement
      in do {
        (ret_val, (body', ps'), context') \<leftarrow>
          expr_lambda_loop S free_vars (layout ps) 0 context body ps name replacement;
        Some (ret_val, EXPR_LAMBDA ps' body', context')
      })"

fun expr_struct_loop ::
  "expr subst \<Rightarrow> symbol_set \<Rightarrow> Context \<Rightarrow> (expr \<times> symbol) list \<Rightarrow> symbol \<Rightarrow> expr
   \<Rightarrow> (expr \<times> symbol) list subst_result" where
  "expr_struct_loop S free_vars context [] name replacement = Some (True, [], context)"
| "expr_struct_loop S free_vars context ((t, old_field_name) # fs) name replacement =
     do {
       (ok, t', context1) \<leftarrow> S context t name replacement;
       if \<not> ok then Some (False, (t', old_field_name) # fs, context1)
       else if old_field_name = name then Some (True, (t', old_field_name) # fs, context1)
       else if symbol_set_contains free_vars old_field_name then
         Some (False, (t', old_field_name) # fs, context1)
       else do {
         (ok', fs', context') \<leftarrow> expr_struct_loop S free_vars context1 fs name replacement;
         Some (ok', (t', old_field_name) # fs', context')
       }
     }"

definition expr_struct_subst ::
  "expr subst \<Rightarrow> Context \<Rightarrow> (expr \<times> symbol) list \<Rightarrow> symbol \<Rightarrow> expr \<Rightarrow> expr subst_result" where
  "expr_struct_subst S context fs name replacement =
     (let free_vars = expr_free_vars replacement
      in do {
        (ret_val, fs', context') \<leftarrow> expr_struct_loop S free_vars context fs name replacement;
        Some (ret_val, EXPR_STRUCT fs', context')
      })"

fun expr_pack_loop ::
  "expr subst \<Rightarrow> symbol_set \<Rightarrow> Context \<Rightarrow> (symbol \<times> expr) list \<Rightarrow> symbol \<Rightarrow> expr
   \<Rightarrow> (symbol \<times> expr) list subst_result" where
  "expr_pack_loop S free_vars context [] name replacement = Some (True, [], context)"
| "expr_pack_loop S free_vars context ((old_field_name, a) # as) name replacement =
     do {
       (ok, a', context1) \<leftarrow> S context a name replacement;
       if \<not> ok then Some (False, (old_field_name, a') # as, context1)
       else if old_field_name = name then Some (True, (old_field_name, a') # as, context1)
       else if symbol_set_contains free_vars old_field_name then
         Some (False, (old_field_name, a') # as, context1)
       else do {
         (ok', as', context') \<leftarrow> expr_pack_loop S free_vars context1 as name replacement;
         Some (ok', (old_field_name, a') # as', context')
       }
     }"

definition expr_pack_subst ::
  "expr subst \<Rightarrow> Context \<Rightarrow> expr \<Rightarrow> (symbol \<times> expr) list \<Rightarrow> symbol \<Rightarrow> expr \<Rightarrow> expr subst_result" where
  "expr_pack_subst S context type as name replacement =
     (let free_vars = expr_free_vars replacement
      in do {
        (ret_val, as', context') \<leftarrow> expr_pack_loop S free_vars context as name replacement;
        Some (ret_val, EXPR_PACK type as', context')
      })"

definition block_subst :: "statement subst \<Rightarrow> Context \<Rightarrow> block \<Rightarrow> symbol \<Rightarrow> expr \<Rightarrow> block subst_result" where
  "block_subst SS context b name replacement = subst_each SS context b name replacement"

fun ifthenelse_subst_loop ::
  "expr subst \<Rightarrow> statement subst \<Rightarrow> Context \<Rightarrow> (expr \<times> block) list \<Rightarrow> symbol \<Rightarrow> expr
   \<Rightarrow> (expr \<times> block) list subst_result" where
  "ifthenelse_subst_loop S SS context [] name replacement = Some (True, [], context)"
| "ifthenelse_subst_loop S SS context ((c, b) # ifs) name replacement =
     do {
       (ok, c', context1) \<leftarrow> S context c name replacement;
       if \<not> ok then Some (False, (c', b) # ifs, context1)
       else do {
         (ok2, b', context2) \<leftarrow> block_subst SS context1 b name replacement;
         if \<not> ok2 then Some (False, (c', b') # ifs, context2)
         else do {
           (ok', ifs', context') \<leftarrow> ifthenelse_subst_loop S SS context2 ifs name replacement;
           Some (ok', (c', b') # ifs', context')
         }
       }
     }"

fun expr_subst_fuel :: "lambda_layout \<Rightarrow> nat \<Rightarrow> expr subst"
  and statement_subst_fuel :: "lambda_layout \<Rightarrow> nat \<Rightarrow> statement subst" where
  "expr_subst_fuel layout 0 context e name replacement = None"
| "expr_subst_fuel layout (Suc d) context e name replacement =
     (case e of
        EXPR_LITERAL l \<Rightarrow> Some (True, e, context)
      | EXPR_IDENT s \<Rightarrow> Some (True, expr_copy replacement, context)
      | EXPR_BIN_OP op e1 e2 \<Rightarrow>
          do {
            (ok1, e1', context1) \<leftarrow> expr_subst_fuel layout d context e1 name replacement;
            if \<not> ok1 then Some (False, EXPR_BIN_OP op e1' e2, context1)
            else do {
              (ok2, e2', context2) \<leftarrow> expr_subst_fuel layout d context1 e2 name replacement;
              Some (ok2, EXPR_BIN_OP op e1' e2', context2)
            }
          }
      | EXPR_IFTHENELSE p t el \<Rightarrow>
          do {
            (ok1, p', context1) \<leftarrow> expr_subst_fuel layout d context p name replacement;
            if \<not> ok1 then Some (False, EXPR_IFTHENELSE p' t el, context1)
            else do {
              (ok2, t', context2) \<leftarrow> expr_subst_fuel layout d context1 t name replacement;
              if \<not> ok2 then Some (False, EXPR_IFTHENELSE p' t' el, context2)
              else do {
                (ok3, el', context3) \<leftarrow>
                  expr_subst_fuel layout d context2 el name replacement;
                Some (ok3, EXPR_IFTHENELSE p' t' el', context3)
              }
            }
          }
      | EXPR_FUNC_TYPE ret_type ps \<Rightarrow>
          expr_func_type_subst (expr_subst_fuel layout d) context ret_type ps name replacement
      | EXPR_LAMBDA ps body \<Rightarrow>
          expr_lambda_subst (expr_subst_fuel layout d) layout context ps body name replacement
      | EXPR_CALL func args \<Rightarrow>
          do {
            (ok1, func', context1) \<leftarrow>
              expr_subst_fuel layout d context func name replacement;
            if \<not> ok1 then Some (False, EXPR_CALL func' args, context1)
            else do {
              (ok2, args', context2) \<leftarrow>
                subst_each (expr_subst_fuel layout d) context1 args name replacement;
              Some (ok2, EXPR_CALL func' args', context2)
            }
          }
      | EXPR_STRUCT fs \<Rightarrow>
          expr_struct_subst (expr_subst_fuel layout d) context fs name replacement
      | EXPR_UNION fs \<Rightarrow>
          do {
            (ok, field_types', context1) \<leftarrow>
              subst_each (expr_subst_fuel layout d) context (map fst fs) name replacement;
            Some (ok, EXPR_UNION (zip field_types' (map snd fs)), context1)
          }
      | EXPR_PACK type as \<Rightarrow>
          expr_pack_subst (expr_subst_fuel layout d) context type as name replacement
      | EXPR_MEMBER rcd field \<Rightarrow>
          do {
            (ok, rcd', context1) \<leftarrow> expr_subst_fuel layout d context rcd name replacement;
            Some (ok, EXPR_MEMBER rcd' field, context1)
          }
      | EXPR_POINTER x \<Rightarrow>
          do {
            (ok, x', context1) \<leftarrow> expr_subst_fuel layout d context x name replacement;
            Some (ok, EXPR_POINTER x', context1)
          }
      | EXPR_REFERENCE x \<Rightarrow>
          do {
            (ok, x', context1) \<leftarrow> expr_subst_fuel layout d context x name replacement;
            Some (ok, EXPR_REFERENCE x', context1)
          }
      | EXPR_DEREFERENCE x \<Rightarrow>
          do {
            (ok, x', context1) \<leftarrow> expr_subst_fuel layout d context x name replacement;
            Some (ok, EXPR_DEREFERENCE x', context1)
          }
      | EXPR_STATEMENT s \<Rightarrow>
          do {
            (ok, s', context1) \<leftarrow> statement_subst_fuel layout d context s name replacement;
            Some (ok, EXPR_STATEMENT s', context1)
          })"
| "statement_subst_fuel layout 0 context s name replacement = None"
| "statement_subst_fuel layout (Suc d) context s name replacement =
     (case s of
        STATEMENT_EMPTY \<Rightarrow> Some (True, s, context)
      | STATEMENT_EXPR e \<Rightarrow>
          do {
            (ok, e', context1) \<leftarrow> expr_subst_fuel layout d context e name replacement;
            Some (ok, STATEMENT_EXPR e', context1)
          }
      | STATEMENT_RETURN e \<Rightarrow>
          do {
            (ok, e', context1) \<leftarrow> expr_subst_fuel layout d context e name replacement;
            Some (ok, STATEMENT_RETURN e', context1)
          }
      | STATEMENT_BLOCK b \<Rightarrow>
          do {
            (ok, b', context1) \<leftarrow>
              block_subst (statement_subst_fuel layout d) context b name replacement;
            Some (ok, STATEMENT_BLOCK b', context1)
          }
      | STATEMENT_DECL type decl_name initial_value \<Rightarrow>
          do {
            (ok, type', context1) \<leftarrow> expr_subst_fuel layout d context type name replacement;
            if \<not> ok then Some (False, STATEMENT_DECL type' decl_name initial_value, context1)
            else case initial_value of
              None \<Rightarrow> Some (True, STATEMENT_DECL type' decl_name None, context1)
            | Some v \<Rightarrow>
                do {
                  (ok2, v', context2) \<leftarrow>
                    expr_subst_fuel layout d context1 v name replacement;
                  Some (ok2, STATEMENT_DECL type' decl_name (Some v'), context2)
                }
          }
      | STATEMENT_IFTHENELSE ifs else_block \<Rightarrow>
          do {
            (ok, ifs', context1) \<leftarrow>
              ifthenelse_subst_loop (expr_subst_fuel layout d) (statement_subst_fuel layout d)
                context ifs name replacement;
            if \<not> ok then Some (False, STATEMENT_IFTHENELSE ifs' else_block, context1)
            else do {
              (ok2, else_block', context2) \<leftarrow>
                block_subst (statement_subst_fuel layout d) context1 else_block name
                  replacement;
              Some (ok2, STATEMENT_IFTHENELSE ifs' else_block', context2)
            }
          })"

text \<open>
  The depth of calls a substitution needs is bounded by the heights of the term and of the
  replacement: an identifier is replaced by a copy of the replacement, and the renaming
  passes of the binder cases, whose replacement is an identifier, run over terms that
  contain such copies.
\<close>

definition height_max :: "nat list \<Rightarrow> nat" where
  "height_max hs = fold max hs 0"

primrec expr_height :: "expr \<Rightarrow> nat" and statement_height :: "statement \<Rightarrow> nat" where
  "expr_height (EXPR_LITERAL l) = 0"
| "expr_height (EXPR_IDENT s) = 0"
| "expr_height (EXPR_BIN_OP op x1 x2) = Suc (max (expr_height x1) (expr_height x2))"
| "expr_height (EXPR_IFTHENELSE p t e) =
     Suc (max (expr_height p) (max (expr_height t) (expr_height e)))"
| "expr_height (EXPR_FUNC_TYPE r ps) =
     Suc (max (expr_height r) (height_max (map fst (map (map_prod expr_height id) ps))))"
| "expr_height (EXPR_LAMBDA ps b) =
     Suc (max (expr_height b) (height_max (map fst (map (map_prod expr_height id) ps))))"
| "expr_height (EXPR_CALL f args) =
     Suc (max (expr_height f) (height_max (map expr_height args)))"
| "expr_height (EXPR_STRUCT fs) =
     Suc (height_max (map fst (map (map_prod expr_height id) fs)))"
| "expr_height (EXPR_UNION fs) =
     Suc (height_max (map fst (map (map_prod expr_height id) fs)))"
| "expr_height (EXPR_PACK t as) =
     Suc (max (expr_height t) (height_max (map snd (map (map_prod id expr_height) as))))"
| "expr_height (EXPR_MEMBER r f) = Suc (expr_height r)"
| "expr_height (EXPR_POINTER x) = Suc (expr_height x)"
| "expr_height (EXPR_REFERENCE x) = Suc (expr_height x)"
| "expr_height (EXPR_DEREFERENCE x) = Suc (expr_height x)"
| "expr_height (EXPR_STATEMENT s) = Suc (statement_height s)"
| "statement_height STATEMENT_EMPTY = 0"
| "statement_height (STATEMENT_EXPR e) = Suc (expr_height e)"
| "statement_height (STATEMENT_RETURN e) = Suc (expr_height e)"
| "statement_height (STATEMENT_BLOCK b) = Suc (height_max (map statement_height b))"
| "statement_height (STATEMENT_DECL t n i) =
     Suc (max (expr_height t) (case map_option expr_height i of None \<Rightarrow> 0 | Some h \<Rightarrow> h))"
| "statement_height (STATEMENT_IFTHENELSE ifs els) =
     Suc (max (height_max (map (\<lambda>(c, b). max c (height_max b))
                             (map (map_prod expr_height (map statement_height)) ifs)))
              (height_max (map statement_height els)))"

definition block_height :: "block \<Rightarrow> nat" where
  "block_height b = height_max (map statement_height b)"

definition expr_subst ::
  "lambda_layout \<Rightarrow> Context \<Rightarrow> expr \<Rightarrow> symbol \<Rightarrow> expr \<Rightarrow> bool \<times> expr \<times> Context" where
  "expr_subst layout context e name replacement =
     the (expr_subst_fuel layout (Suc (expr_height e + expr_height replacement))
            context e name replacement)"

definition statement_subst ::
  "lambda_layout \<Rightarrow> Context \<Rightarrow> statement \<Rightarrow> symbol \<Rightarrow> expr \<Rightarrow> bool \<times> statement \<times> Context" where
  "statement_subst layout context s name replacement =
     the (statement_subst_fuel layout (Suc (statement_height s + expr_height replacement))
            context s name replacement)"

section \<open>Predicates and functions of the statements\<close>

text \<open>
  The right-to-left fold over a block in the words of the specification: start from the
  empty set; for each statement from the last to the first, delete the declared name when
  the statement is a declaration, then add the statement's own free variables.
\<close>

definition block_free_vars_fold :: "block \<Rightarrow> symbol set" where
  "block_free_vars_fold b =
     foldr (\<lambda>s acc. (case s of STATEMENT_DECL _ d _ \<Rightarrow> acc - {d} | _ \<Rightarrow> acc)
                      \<union> statement_free_vars s) b {}"

text \<open>Expressions without a binary operation and without a wrapped statement.\<close>

primrec plain_expr :: "expr \<Rightarrow> bool" where
  "plain_expr (EXPR_LITERAL l) = True"
| "plain_expr (EXPR_IDENT s) = True"
| "plain_expr (EXPR_BIN_OP op x1 x2) = False"
| "plain_expr (EXPR_IFTHENELSE p t e) = (plain_expr p \<and> plain_expr t \<and> plain_expr e)"
| "plain_expr (EXPR_FUNC_TYPE r ps) =
     (plain_expr r \<and> list_all fst (map (map_prod plain_expr id) ps))"
| "plain_expr (EXPR_LAMBDA ps b) =
     (list_all fst (map (map_prod plain_expr id) ps) \<and> plain_expr b)"
| "plain_expr (EXPR_CALL f args) = (plain_expr f \<and> list_all id (map plain_expr args))"
| "plain_expr (EXPR_STRUCT fs) = list_all fst (map (map_prod plain_expr id) fs)"
| "plain_expr (EXPR_UNION fs) = list_all fst (map (map_prod plain_expr id) fs)"
| "plain_expr (EXPR_PACK t as) =
     (plain_expr t \<and> list_all snd (map (map_prod id plain_expr) as))"
| "plain_expr (EXPR_MEMBER r f) = plain_expr r"
| "plain_expr (EXPR_POINTER x) = plain_expr x"
| "plain_expr (EXPR_REFERENCE x) = plain_expr x"
| "plain_expr (EXPR_DEREFERENCE x) = plain_expr x"
| "plain_expr (EXPR_STATEMENT s) = False"

text \<open>The field names of all struct and pack nodes of a term.\<close>

primrec record_fields :: "expr \<Rightarrow> symbol set"
  and statement_record_fields :: "statement \<Rightarrow> symbol set" where
  "record_fields (EXPR_LITERAL l) = {}"
| "record_fields (EXPR_IDENT s) = {}"
| "record_fields (EXPR_BIN_OP op x1 x2) = record_fields x1 \<union> record_fields x2"
| "record_fields (EXPR_IFTHENELSE p t e) =
     record_fields p \<union> record_fields t \<union> record_fields e"
| "record_fields (EXPR_FUNC_TYPE r ps) =
     record_fields r \<union> \<Union> (set (map fst (map (map_prod record_fields id) ps)))"
| "record_fields (EXPR_LAMBDA ps b) =
     \<Union> (set (map fst (map (map_prod record_fields id) ps))) \<union> record_fields b"
| "record_fields (EXPR_CALL f args) = record_fields f \<union> \<Union> (set (map record_fields args))"
| "record_fields (EXPR_STRUCT fs) =
     set (map snd fs) \<union> \<Union> (set (map fst (map (map_prod record_fields id) fs)))"
| "record_fields (EXPR_UNION fs) = \<Union> (set (map fst (map (map_prod record_fields id) fs)))"
| "record_fields (EXPR_PACK t as) =
     record_fields t \<union> set (map fst as)
       \<union> \<Union> (set (map snd (map (map_prod id record_fields) as)))"
| "record_fields (EXPR_MEMBER r f) = record_fields r"
| "record_fields (EXPR_POINTER x) = record_fields x"
| "record_fields (EXPR_REFERENCE x) = record_fields x"
| "record_fields (EXPR_DEREFERENCE x) = record_fields x"
| "record_fields (EXPR_STATEMENT s) = statement_record_fields s"
| "statement_record_fields STATEMENT_EMPTY = {}"
| "statement_record_fields (STATEMENT_EXPR e) = record_fields e"
| "statement_record_fields (STATEMENT_RETURN e) = record_fields e"
| "statement_record_fields (STATEMENT_BLOCK b) = \<Union> (set (map statement_record_fields b))"
| "statement_record_fields (STATEMENT_DECL t n i) =
     record_fields t \<union> (case map_option record_fields i of None \<Rightarrow> {} | Some fs \<Rightarrow> fs)"
| "statement_record_fields (STATEMENT_IFTHENELSE ifs els) =
     \<Union> (set (map (\<lambda>(c, b). c \<union> \<Union> (set b))
                  (map (map_prod record_fields (map statement_record_fields)) ifs)))
       \<union> \<Union> (set (map statement_record_fields els))"

text \<open>Terms without a struct and without a pack node.\<close>

primrec no_struct_pack :: "expr \<Rightarrow> bool"
  and statement_no_struct_pack :: "statement \<Rightarrow> bool" where
  "no_struct_pack (EXPR_LITERAL l) = True"
| "no_struct_pack (EXPR_IDENT s) = True"
| "no_struct_pack (EXPR_BIN_OP op x1 x2) = (no_struct_pack x1 \<and> no_struct_pack x2)"
| "no_struct_pack (EXPR_IFTHENELSE p t e) =
     (no_struct_pack p \<and> no_struct_pack t \<and> no_struct_pack e)"
| "no_struct_pack (EXPR_FUNC_TYPE r ps) =
     (no_struct_pack r \<and> list_all fst (map (map_prod no_struct_pack id) ps))"
| "no_struct_pack (EXPR_LAMBDA ps b) =
     (list_all fst (map (map_prod no_struct_pack id) ps) \<and> no_struct_pack b)"
| "no_struct_pack (EXPR_CALL f args) =
     (no_struct_pack f \<and> list_all id (map no_struct_pack args))"
| "no_struct_pack (EXPR_STRUCT fs) = False"
| "no_struct_pack (EXPR_UNION fs) = list_all fst (map (map_prod no_struct_pack id) fs)"
| "no_struct_pack (EXPR_PACK t as) = False"
| "no_struct_pack (EXPR_MEMBER r f) = no_struct_pack r"
| "no_struct_pack (EXPR_POINTER x) = no_struct_pack x"
| "no_struct_pack (EXPR_REFERENCE x) = no_struct_pack x"
| "no_struct_pack (EXPR_DEREFERENCE x) = no_struct_pack x"
| "no_struct_pack (EXPR_STATEMENT s) = statement_no_struct_pack s"
| "statement_no_struct_pack STATEMENT_EMPTY = True"
| "statement_no_struct_pack (STATEMENT_EXPR e) = no_struct_pack e"
| "statement_no_struct_pack (STATEMENT_RETURN e) = no_struct_pack e"
| "statement_no_struct_pack (STATEMENT_BLOCK b) =
     list_all id (map statement_no_struct_pack b)"
| "statement_no_struct_pack (STATEMENT_DECL t n i) =
     (no_struct_pack t \<and> (case map_option no_struct_pack i of None \<Rightarrow> True | Some v \<Rightarrow> v))"
| "statement_no_struct_pack (STATEMENT_IFTHENELSE ifs els) =
     (list_all (\<lambda>(c, b). c \<and> list_all id b)
        (map (map_prod no_struct_pack (map statement_no_struct_pack)) ifs)
      \<and> list_all id (map statement_no_struct_pack els))"

text \<open>
  Properties of a substitution function at one depth, as the loops use it: the height of
  the result, the existence of a result below a depth, the growth of the registry, and
  success where no field name of the term is free in the replacement.
\<close>

definition height_ok :: "('a \<Rightarrow> nat) \<Rightarrow> 'a subst \<Rightarrow> bool" where
  "height_ok hf S \<longleftrightarrow>
     (\<forall>c x n r ok x' c'. S c x n r = Some (ok, x', c') \<longrightarrow> hf x' \<le> hf x + expr_height r)"

definition total_below :: "('a \<Rightarrow> nat) \<Rightarrow> 'a subst \<Rightarrow> nat \<Rightarrow> bool" where
  "total_below hf S d \<longleftrightarrow>
     (\<forall>c x n r. hf x + expr_height r < d \<longrightarrow> S c x n r \<noteq> None)"

definition interns_mono :: "'a subst \<Rightarrow> bool" where
  "interns_mono S \<longleftrightarrow>
     (\<forall>c x n r ok x' c'. S c x n r = Some (ok, x', c') \<longrightarrow>
        set (interns c) \<subseteq> set (interns c'))"

definition capture_free :: "('a \<Rightarrow> symbol set) \<Rightarrow> 'a subst \<Rightarrow> bool" where
  "capture_free rf S \<longleftrightarrow>
     (\<forall>c x n r ok x' c'.
        S c x n r = Some (ok, x', c') \<longrightarrow> rf x \<inter> expr_free_vars r = {} \<longrightarrow>
        rf x \<subseteq> set (interns c) \<longrightarrow> record_fields r \<subseteq> set (interns c) \<longrightarrow>
        ok \<and> rf x' \<subseteq> rf x \<union> record_fields r)"



section \<open>Structural equality: symmetry, and reflexivity where it holds\<close>

lemma literal_equal_iff: "literal_equal x y \<longleftrightarrow> x = y"
  by (cases x; cases y; simp add: literal_equal_def)

lemma args_equal_sym:
  "\<forall>x\<in>set xs. \<forall>y. expr_equal x y = expr_equal y x \<Longrightarrow> length xs = length ys \<Longrightarrow>
   args_equal (map expr_equal xs) ys = args_equal (map expr_equal ys) xs"
proof (induction xs arbitrary: ys)
  case Nil then show ?case by simp
next
  case (Cons x xs)
  then obtain y ys' where ys: "ys = y # ys'" by (cases ys) auto
  have "args_equal (map expr_equal xs) ys' = args_equal (map expr_equal ys') xs"
    using Cons.prems ys by (intro Cons.IH) auto
  moreover have "expr_equal x y = expr_equal y x" using Cons.prems by simp
  ultimately show ?case by (simp add: ys)
qed

lemma fields_equal_sym:
  "\<forall>p\<in>set xs. \<forall>y. expr_equal (fst p) y = expr_equal y (fst p) \<Longrightarrow> length xs = length ys \<Longrightarrow>
   fields_equal (map (map_prod expr_equal id) xs) ys =
   fields_equal (map (map_prod expr_equal id) ys) xs"
proof (induction xs arbitrary: ys)
  case Nil then show ?case by simp
next
  case (Cons x xs)
  then obtain y ys' where ys: "ys = y # ys'" by (cases ys) auto
  obtain t n where x: "x = (t, n)" by (cases x)
  obtain u m where y: "y = (u, m)" by (cases y)
  have "fields_equal (map (map_prod expr_equal id) xs) ys' =
        fields_equal (map (map_prod expr_equal id) ys') xs"
    using Cons.prems ys by (intro Cons.IH) auto
  moreover have "expr_equal t u = expr_equal u t" using Cons.prems x by simp
  ultimately show ?case by (auto simp add: ys x y id_def)
qed

lemma assigns_equal_sym:
  "\<forall>p\<in>set xs. \<forall>y. expr_equal (snd p) y = expr_equal y (snd p) \<Longrightarrow> length xs = length ys \<Longrightarrow>
   assigns_equal (map (map_prod id expr_equal) xs) ys =
   assigns_equal (map (map_prod id expr_equal) ys) xs"
proof (induction xs arbitrary: ys)
  case Nil then show ?case by simp
next
  case (Cons x xs)
  then obtain y ys' where ys: "ys = y # ys'" by (cases ys) auto
  obtain n t where x: "x = (n, t)" by (cases x)
  obtain m u where y: "y = (m, u)" by (cases y)
  have "assigns_equal (map (map_prod id expr_equal) xs) ys' =
        assigns_equal (map (map_prod id expr_equal) ys') xs"
    using Cons.prems ys by (intro Cons.IH) auto
  moreover have "expr_equal t u = expr_equal u t" using Cons.prems x by simp
  ultimately show ?case by (auto simp add: ys x y id_def)
qed

lemma lambda_params_equal_sym:
  "lambda_params_equal b ns ms = lambda_params_equal b ms ns"
  by (induction b ns ms rule: lambda_params_equal.induct) auto

lemma expr_equal_sym_aux:
  fixes x :: expr and s :: statement
  shows "expr_equal x y = expr_equal y x" and "s = s"
proof (induction x and s arbitrary: y)
  case (EXPR_LITERAL l) then show ?case by (cases y) (auto simp: literal_equal_iff)
next
  case (EXPR_IDENT s) then show ?case by (cases y) auto
next
  case (EXPR_BIN_OP op x1 x2) then show ?case by (cases y) auto
next
  case (EXPR_IFTHENELSE a b c) then show ?case by (cases y) auto
next
  case (EXPR_FUNC_TYPE r ps)
  have h: "\<forall>p\<in>set ps. \<forall>y. expr_equal (fst p) y = expr_equal y (fst p)"
    using EXPR_FUNC_TYPE(2) by (auto simp: prod_set_defs)
  show ?case using EXPR_FUNC_TYPE(1) fields_equal_sym[OF h] by (cases y) auto
next
  case (EXPR_LAMBDA ps b)
  have h: "\<And>t n y. (t, n) \<in> set ps \<Longrightarrow> expr_equal t y = expr_equal y t"
    using EXPR_LAMBDA(1) by fastforce
  show ?case
  proof (cases y)
    case (EXPR_LAMBDA qs c)
    show ?thesis
    proof (cases ps)
      case Nil then show ?thesis using EXPR_LAMBDA \<open>\<And>y. expr_equal b y = expr_equal y b\<close> by (cases qs) auto
    next
      case (Cons p ps')
      show ?thesis
      proof (cases qs)
        case Nil then show ?thesis using EXPR_LAMBDA Cons by simp
      next
        case (Cons q qs')
        have e: "expr_equal (fst p) (fst q) = expr_equal (fst q) (fst p)"
          using h[of "fst p" "snd p"] \<open>ps = p # ps'\<close> by simp
        have b: "expr_equal b c = expr_equal c b"
          using \<open>\<And>y. expr_equal b y = expr_equal y b\<close> .
        have l: "lambda_params_equal (expr_equal (fst q) (fst p)) (map snd ps') (map snd qs') =
                 lambda_params_equal (expr_equal (fst q) (fst p)) (map snd qs') (map snd ps')"
          by (rule lambda_params_equal_sym)
        show ?thesis using e b l
          by (cases p; cases q) (auto simp: EXPR_LAMBDA Cons \<open>ps = p # ps'\<close>)
      qed
    qed
  qed auto
next
  case (EXPR_CALL f args)
  have h: "\<forall>x\<in>set args. \<forall>y. expr_equal x y = expr_equal y x"
    using EXPR_CALL(2) by auto
  show ?case using EXPR_CALL(1) args_equal_sym[OF h] by (cases y) auto
next
  case (EXPR_STRUCT fs)
  have h: "\<forall>p\<in>set fs. \<forall>y. expr_equal (fst p) y = expr_equal y (fst p)"
    using EXPR_STRUCT by (auto simp: prod_set_defs)
  show ?case using fields_equal_sym[OF h] by (cases y) auto
next
  case (EXPR_UNION fs)
  have h: "\<forall>p\<in>set fs. \<forall>y. expr_equal (fst p) y = expr_equal y (fst p)"
    using EXPR_UNION by (auto simp: prod_set_defs)
  show ?case using fields_equal_sym[OF h] by (cases y) auto
next
  case (EXPR_PACK t as)
  have h: "\<forall>p\<in>set as. \<forall>y. expr_equal (snd p) y = expr_equal y (snd p)"
    using EXPR_PACK(2) by (auto simp: prod_set_defs)
  show ?case using EXPR_PACK(1) assigns_equal_sym[OF h] by (cases y) auto
next
  case (EXPR_MEMBER r f) then show ?case by (cases y) auto
next
  case (EXPR_POINTER x) then show ?case by (cases y) auto
next
  case (EXPR_REFERENCE x) then show ?case by (cases y) auto
next
  case (EXPR_DEREFERENCE x) then show ?case by (cases y) auto
next
  case (EXPR_STATEMENT s) then show ?case by (cases y) auto
qed simp_all


lemma literal_equal_refl: "literal_equal l l"
  by (cases l) (simp_all add: literal_equal_def)

lemma args_equal_refl:
  "\<forall>x\<in>set xs. expr_equal x x \<Longrightarrow> args_equal (map expr_equal xs) xs"
  by (induction xs) auto

lemma fields_equal_refl:
  "\<forall>p\<in>set xs. expr_equal (fst p) (fst p) \<Longrightarrow> fields_equal (map (map_prod expr_equal id) xs) xs"
  by (induction xs) auto

lemma assigns_equal_refl:
  "\<forall>p\<in>set xs. expr_equal (snd p) (snd p) \<Longrightarrow> assigns_equal (map (map_prod id expr_equal) xs) xs"
  by (induction xs) auto

lemma lambda_params_equal_refl: "lambda_params_equal True ns ns"
  by (induction ns) auto

lemma expr_equal_refl_aux:
  fixes x :: expr and s :: statement
  shows "plain_expr x \<Longrightarrow> expr_equal x x" and "s = s"
proof (induction x and s)
  case (EXPR_FUNC_TYPE r ps)
  have "\<forall>p\<in>set ps. expr_equal (fst p) (fst p)"
    using EXPR_FUNC_TYPE by (auto simp: list_all_iff prod_set_defs)
  then show ?case using EXPR_FUNC_TYPE fields_equal_refl by simp
next
  case (EXPR_LAMBDA ps b)
  have h: "\<forall>p\<in>set ps. expr_equal (fst p) (fst p)"
    using EXPR_LAMBDA by (auto simp: list_all_iff prod_set_defs)
  show ?case
  proof (cases ps)
    case Nil then show ?thesis using EXPR_LAMBDA by simp
  next
    case (Cons p ps')
    then show ?thesis using EXPR_LAMBDA h by (cases p) (simp add: lambda_params_equal_refl)
  qed
next
  case (EXPR_CALL f args)
  have "\<forall>x\<in>set args. expr_equal x x"
    using EXPR_CALL by (auto simp: list_all_iff)
  then show ?case using EXPR_CALL args_equal_refl by simp
next
  case (EXPR_STRUCT fs)
  have "\<forall>p\<in>set fs. expr_equal (fst p) (fst p)"
    using EXPR_STRUCT by (auto simp: list_all_iff prod_set_defs)
  then show ?case using fields_equal_refl by simp
next
  case (EXPR_UNION fs)
  have "\<forall>p\<in>set fs. expr_equal (fst p) (fst p)"
    using EXPR_UNION by (auto simp: list_all_iff prod_set_defs)
  then show ?case using fields_equal_refl by simp
next
  case (EXPR_PACK t as)
  have "\<forall>p\<in>set as. expr_equal (snd p) (snd p)"
    using EXPR_PACK by (auto simp: list_all_iff prod_set_defs)
  then show ?case using EXPR_PACK assigns_equal_refl by simp
qed (simp_all add: literal_equal_refl)


text \<open>
  C3 (counterexample).  The case of a wrapped statement returns false, so an expression
  that wraps a statement is not equal to itself.
\<close>

theorem expr_equal_statement_not_reflexive:
  "\<not> expr_equal (EXPR_STATEMENT STATEMENT_EMPTY) (EXPR_STATEMENT STATEMENT_EMPTY)"
  by simp

text \<open>
  C3 (amended).  Structural equality is symmetric on all expressions, and reflexive on
  every expression that contains neither a binary operation nor a wrapped statement.
\<close>

theorem expr_equal_symmetric_reflexive_plain:
  "expr_equal x y = expr_equal y x \<and> (plain_expr x \<longrightarrow> expr_equal x x)"
  using expr_equal_sym_aux(1) expr_equal_refl_aux(1) by blast

theorem expr_equal_symmetric_reflexive_plain_witness:
  "plain_expr (EXPR_CALL (EXPR_IDENT ''f'') [EXPR_LITERAL (LIT_INTEGRAL 1)])
   \<and> expr_equal (EXPR_CALL (EXPR_IDENT ''f'') [EXPR_LITERAL (LIT_INTEGRAL 1)])
        (EXPR_CALL (EXPR_IDENT ''f'') [EXPR_LITERAL (LIT_INTEGRAL 1)])
   \<and> expr_equal (EXPR_CALL (EXPR_IDENT ''f'') [EXPR_LITERAL (LIT_INTEGRAL 1)]) (EXPR_IDENT ''g'')
      = expr_equal (EXPR_IDENT ''g'') (EXPR_CALL (EXPR_IDENT ''f'') [EXPR_LITERAL (LIT_INTEGRAL 1)])"
  using expr_equal_symmetric_reflexive_plain
    [of "EXPR_CALL (EXPR_IDENT ''f'') [EXPR_LITERAL (LIT_INTEGRAL 1)]" "EXPR_IDENT ''g''"]
  by simp

text \<open>
  C4.  Two binary operations with the same operator and equal operands: \<open>expr_equal\<close>
  tests the operators with \<open>!=\<close> and returns false, where the claim says true.
\<close>

theorem expr_equal_bin_op_same_operator:
  "expr_equal
     (EXPR_BIN_OP BIN_OP_ADD (EXPR_LITERAL (LIT_INTEGRAL 1)) (EXPR_LITERAL (LIT_INTEGRAL 2)))
     (EXPR_BIN_OP BIN_OP_ADD (EXPR_LITERAL (LIT_INTEGRAL 1)) (EXPR_LITERAL (LIT_INTEGRAL 2)))
   = False"
  by simp

theorem expr_equal_bin_op_same_operator_witness:
  "\<not> expr_equal
     (EXPR_BIN_OP BIN_OP_ADD (EXPR_LITERAL (LIT_INTEGRAL 1)) (EXPR_LITERAL (LIT_INTEGRAL 2)))
     (EXPR_BIN_OP BIN_OP_ADD (EXPR_LITERAL (LIT_INTEGRAL 1)) (EXPR_LITERAL (LIT_INTEGRAL 2)))"
  using expr_equal_bin_op_same_operator by (rule eq_False[THEN iffD1])

section \<open>Free variables of blocks and statements\<close>

lemmas symbol_set_defs = symbol_set_empty_def symbol_set_add_def symbol_set_delete_def
  symbol_set_contains_def symbol_set_union_def

lemma block_free_vars_loop_foldr:
  "block_free_vars_loop (map (\<lambda>s. (s, statement_free_vars s)) b) =
   foldr (\<lambda>s acc. (case s of STATEMENT_DECL _ d _ \<Rightarrow> acc - {d} | _ \<Rightarrow> acc)
                    \<union> statement_free_vars s) b {}"
  unfolding block_free_vars_loop_def
  by (simp add: foldr_conv_fold rev_map fold_map comp_def symbol_set_defs
      split: statement.splits cong: statement.case_cong)

text \<open>
  C7 (counterexample).  In \<open>{ u8 x = y; x + z; }\<close> the type \<open>u8\<close> is a literal, whose
  free variables are empty, so the block's free variables are not \<open>{u8, y, z}\<close>.
\<close>

theorem block_free_vars_example_counterexample:
  "block_free_vars
     [STATEMENT_DECL (EXPR_LITERAL LIT_U8) ''x'' (Some (EXPR_IDENT ''y'')),
      STATEMENT_EXPR (EXPR_BIN_OP BIN_OP_ADD (EXPR_IDENT ''x'') (EXPR_IDENT ''z''))]
   \<noteq> {''u8'', ''y'', ''z''}"
proof -
  have "block_free_vars
     [STATEMENT_DECL (EXPR_LITERAL LIT_U8) ''x'' (Some (EXPR_IDENT ''y'')),
      STATEMENT_EXPR (EXPR_BIN_OP BIN_OP_ADD (EXPR_IDENT ''x'') (EXPR_IDENT ''z''))]
     = {''y'', ''z''}"
    by (simp add: block_free_vars_def block_free_vars_loop_def symbol_set_defs insert_Diff_if)
  moreover have "''u8'' \<notin> {''y'', ''z''}" by simp
  ultimately show ?thesis by (metis insertI1)
qed

text \<open>
  C7 (amended).  The free variables of a block are the right-to-left fold of the
  specification, so a declaration binds the later statements but not its own right-hand
  side; the free variables of \<open>{ u8 x = y; x + z; }\<close> are \<open>{y, z}\<close>.
\<close>

theorem block_free_vars_right_fold:
  "block_free_vars b = block_free_vars_fold b
   \<and> block_free_vars
       [STATEMENT_DECL (EXPR_LITERAL LIT_U8) ''x'' (Some (EXPR_IDENT ''y'')),
        STATEMENT_EXPR (EXPR_BIN_OP BIN_OP_ADD (EXPR_IDENT ''x'') (EXPR_IDENT ''z''))]
     = {''y'', ''z''}"
proof
  show "block_free_vars b = block_free_vars_fold b"
    unfolding block_free_vars_def block_free_vars_fold_def
    by (rule block_free_vars_loop_foldr)
  show "block_free_vars
       [STATEMENT_DECL (EXPR_LITERAL LIT_U8) ''x'' (Some (EXPR_IDENT ''y'')),
        STATEMENT_EXPR (EXPR_BIN_OP BIN_OP_ADD (EXPR_IDENT ''x'') (EXPR_IDENT ''z''))]
     = {''y'', ''z''}"
    by (simp add: block_free_vars_def block_free_vars_loop_def symbol_set_defs insert_Diff_if)
qed

theorem block_free_vars_right_fold_witness:
  "block_free_vars [STATEMENT_DECL (EXPR_IDENT ''t'') ''x'' None, STATEMENT_EXPR (EXPR_IDENT ''x'')]
   = block_free_vars_fold
       [STATEMENT_DECL (EXPR_IDENT ''t'') ''x'' None, STATEMENT_EXPR (EXPR_IDENT ''x'')]"
  by (rule block_free_vars_right_fold[THEN conjunct1])

text \<open>
  C8.  A conditional statement with one branch: the loop overwrites the accumulated set
  with the free variables of the then block, so those of the else block are lost.  The
  claim gives \<open>{c, t, e}\<close>.
\<close>

theorem statement_free_vars_ifthenelse_drops_else:
  "statement_free_vars
     (STATEMENT_IFTHENELSE
        [(EXPR_IDENT ''c'', [STATEMENT_EXPR (EXPR_IDENT ''t'')])]
        [STATEMENT_EXPR (EXPR_IDENT ''e'')])
   = {''c'', ''t''}"
  by (simp add: ifthenelse_free_vars_loop_def block_free_vars_loop_def symbol_set_defs)

theorem statement_free_vars_ifthenelse_drops_else_witness:
  "''e'' \<notin> statement_free_vars
     (STATEMENT_IFTHENELSE
        [(EXPR_IDENT ''c'', [STATEMENT_EXPR (EXPR_IDENT ''t'')])]
        [STATEMENT_EXPR (EXPR_IDENT ''e'')])"
  by (subst statement_free_vars_ifthenelse_drops_else) simp


section \<open>The loops of substitution, case by case\<close>

lemma height_max_Max: "height_max hs = Max (insert 0 (set hs))"
  unfolding height_max_def using Max.set_eq_fold[of 0 hs] by simp

lemma height_max_le_iff: "height_max hs \<le> k \<longleftrightarrow> (\<forall>h\<in>set hs. h \<le> k)"
  by (simp add: height_max_Max)

lemma height_okD:
  "height_ok hf S \<Longrightarrow> S c x n r = Some (ok, x', c') \<Longrightarrow> hf x' \<le> hf x + expr_height r"
  unfolding height_ok_def by blast

lemma total_belowD:
  "total_below hf S d \<Longrightarrow> hf x + expr_height r < d \<Longrightarrow> \<exists>ok x' c'. S c x n r = Some (ok, x', c')"
  unfolding total_below_def by (metis not_Some_eq prod_cases3)

lemma interns_monoD:
  "interns_mono S \<Longrightarrow> S c x n r = Some (ok, x', c') \<Longrightarrow> set (interns c) \<subseteq> set (interns c')"
  unfolding interns_mono_def by blast

lemma subst_each_ConsE:
  assumes "subst_each S c (x # xs) n r = Some (ok, ys, c')"
  obtains (stop) x' where "S c x n r = Some (False, x', c')" "\<not> ok" "ys = x' # xs"
  | (continue) x' c1 xs' where "S c x n r = Some (True, x', c1)"
      "subst_each S c1 xs n r = Some (ok, xs', c')" "ys = x' # xs'"
  using assms by (auto simp: bind_eq_Some_conv split: if_splits)

lemma subst_repeat_SucE:
  assumes "subst_repeat S (Suc k) c e n r = Some (ok, e', c')"
  obtains (stop) "S c e n r = Some (False, e', c')" "\<not> ok"
  | (continue) e1 c1 where "S c e n r = Some (True, e1, c1)"
      "subst_repeat S k c1 e1 n r = Some (ok, e', c')"
  using assms by (auto simp: bind_eq_Some_conv split: if_splits)

lemma expr_func_type_loop_NilE:
  assumes "expr_func_type_loop S F c ret [] n r = Some (ok, (ret', ps'), c')"
  obtains "S c ret n r = Some (ok, ret', c')" "ps' = []"
  using assms by (auto simp: bind_eq_Some_conv)

lemma expr_func_type_loop_ConsE:
  assumes "expr_func_type_loop S F c ret ((t, nm) # ps) n r = Some (ok, (ret', ps'), c')"
  obtains
    (stop) t' where "S c t n r = Some (False, t', c')" "\<not> ok" "ret' = ret" "ps' = (t', nm) # ps"
  | (shadow) t' where "S c t n r = Some (True, t', c')" "nm = Some n" "ok" "ret' = ret"
      "ps' = (t', nm) # ps"
  | (keep) t' c1 ps1 where "S c t n r = Some (True, t', c1)" "nm \<noteq> Some n"
      "\<forall>old. nm = Some old \<longrightarrow> old \<notin> F"
      "expr_func_type_loop S F c1 ret ps n r = Some (ok, (ret', ps1), c')" "ps' = (t', nm) # ps1"
  | (rename_stop1) t' c1 old new c2 t'' where "S c t n r = Some (True, t', c1)" "nm = Some old"
      "old \<noteq> n" "old \<in> F" "symbol_gensym c1 old = (new, c2)"
      "subst_repeat S (length ps) c2 t' old (EXPR_IDENT new) = Some (False, t'', c')"
      "\<not> ok" "ret' = ret" "ps' = (t'', Some new) # ps"
  | (rename_stop2) t' c1 old new c2 t'' c3 where "S c t n r = Some (True, t', c1)" "nm = Some old"
      "old \<noteq> n" "old \<in> F" "symbol_gensym c1 old = (new, c2)"
      "subst_repeat S (length ps) c2 t' old (EXPR_IDENT new) = Some (True, t'', c3)"
      "S c3 ret old (EXPR_IDENT new) = Some (False, ret', c')"
      "\<not> ok" "ps' = (t'', Some new) # ps"
  | (rename) t' c1 old new c2 t'' c3 ret1 c4 ps1 where "S c t n r = Some (True, t', c1)"
      "nm = Some old" "old \<noteq> n" "old \<in> F" "symbol_gensym c1 old = (new, c2)"
      "subst_repeat S (length ps) c2 t' old (EXPR_IDENT new) = Some (True, t'', c3)"
      "S c3 ret old (EXPR_IDENT new) = Some (True, ret1, c4)"
      "expr_func_type_loop S F c4 ret1 ps n r = Some (ok, (ret', ps1), c')"
      "ps' = (t'', Some new) # ps1"
  using assms
  by (auto simp: bind_eq_Some_conv Let_def symbol_set_contains_def
      split: if_splits option.splits prod.splits)

lemma expr_lambda_loop_NilE:
  assumes "expr_lambda_loop S F b i c body [] n r = Some (ok, (body', ps'), c')"
  obtains "S c body n r = Some (ok, body', c')" "ps' = []"
  using assms by (auto simp: bind_eq_Some_conv)

lemma expr_lambda_loop_ConsE:
  assumes "expr_lambda_loop S F b i c body ((t, old) # ps) n r = Some (ok, (body', ps'), c')"
  obtains
    (stop) t' where "S c t n r = Some (False, t', c')" "\<not> ok" "body' = body"
      "ps' = (t', old) # ps"
  | (shadow) t' where "S c t n r = Some (True, t', c')" "old = n" "ok" "body' = body"
      "ps' = (t', old) # ps"
  | (keep) t' c1 ps1 where "S c t n r = Some (True, t', c1)" "old \<noteq> n" "old \<notin> F"
      "expr_lambda_loop S F b (i + 1) c1 body ps n r = Some (ok, (body', ps1), c')"
      "ps' = (t', old) # ps1"
  | (rename_stop1) t' c1 new c2 t'' where "S c t n r = Some (True, t', c1)"
      "old \<noteq> n" "old \<in> F" "symbol_gensym c1 old = (new, c2)"
      "subst_repeat S (b - (i + 1)) c2 t' old (EXPR_IDENT new) = Some (False, t'', c')"
      "\<not> ok" "body' = body" "ps' = (t'', new) # ps"
  | (rename_stop2) t' c1 new c2 t'' c3 where "S c t n r = Some (True, t', c1)"
      "old \<noteq> n" "old \<in> F" "symbol_gensym c1 old = (new, c2)"
      "subst_repeat S (b - (i + 1)) c2 t' old (EXPR_IDENT new) = Some (True, t'', c3)"
      "S c3 body old (EXPR_IDENT new) = Some (False, body', c')"
      "\<not> ok" "ps' = (t'', new) # ps"
  | (rename) t' c1 new c2 t'' c3 body1 c4 ps1 where "S c t n r = Some (True, t', c1)"
      "old \<noteq> n" "old \<in> F" "symbol_gensym c1 old = (new, c2)"
      "subst_repeat S (b - (i + 1)) c2 t' old (EXPR_IDENT new) = Some (True, t'', c3)"
      "S c3 body old (EXPR_IDENT new) = Some (True, body1, c4)"
      "expr_lambda_loop S F b (i + 1) c4 body1 ps n r = Some (ok, (body', ps1), c')"
      "ps' = (t'', new) # ps1"
  using assms
  by (auto simp: bind_eq_Some_conv Let_def symbol_set_contains_def
      split: if_splits option.splits prod.splits)

lemma expr_struct_loop_ConsE:
  assumes "expr_struct_loop S F c ((t, f) # fs) n r = Some (ok, fs', c')"
  obtains
    (stop) t' where "S c t n r = Some (False, t', c')" "\<not> ok" "fs' = (t', f) # fs"
  | (shadow) t' where "S c t n r = Some (True, t', c')" "f = n" "ok" "fs' = (t', f) # fs"
  | (refuse) t' where "S c t n r = Some (True, t', c')" "f \<noteq> n" "f \<in> F" "\<not> ok"
      "fs' = (t', f) # fs"
  | (continue) t' c1 fs1 where "S c t n r = Some (True, t', c1)" "f \<noteq> n" "f \<notin> F"
      "expr_struct_loop S F c1 fs n r = Some (ok, fs1, c')" "fs' = (t', f) # fs1"
  using assms
  by (auto simp: bind_eq_Some_conv symbol_set_contains_def split: if_splits)

lemma expr_pack_loop_ConsE:
  assumes "expr_pack_loop S F c ((f, a) # as) n r = Some (ok, as', c')"
  obtains
    (stop) a' where "S c a n r = Some (False, a', c')" "\<not> ok" "as' = (f, a') # as"
  | (shadow) a' where "S c a n r = Some (True, a', c')" "f = n" "ok" "as' = (f, a') # as"
  | (refuse) a' where "S c a n r = Some (True, a', c')" "f \<noteq> n" "f \<in> F" "\<not> ok"
      "as' = (f, a') # as"
  | (continue) a' c1 as1 where "S c a n r = Some (True, a', c1)" "f \<noteq> n" "f \<notin> F"
      "expr_pack_loop S F c1 as n r = Some (ok, as1, c')" "as' = (f, a') # as1"
  using assms
  by (auto simp: bind_eq_Some_conv symbol_set_contains_def split: if_splits)

lemma ifthenelse_subst_loop_ConsE:
  assumes "ifthenelse_subst_loop S SS c ((e, b) # ifs) n r = Some (ok, ifs', c')"
  obtains
    (stop1) e' where "S c e n r = Some (False, e', c')" "\<not> ok" "ifs' = (e', b) # ifs"
  | (stop2) e' c1 b' where "S c e n r = Some (True, e', c1)"
      "subst_each SS c1 b n r = Some (False, b', c')" "\<not> ok" "ifs' = (e', b') # ifs"
  | (continue) e' c1 b' c2 ifs1 where "S c e n r = Some (True, e', c1)"
      "subst_each SS c1 b n r = Some (True, b', c2)"
      "ifthenelse_subst_loop S SS c2 ifs n r = Some (ok, ifs1, c')" "ifs' = (e', b') # ifs1"
  using assms
  by (auto simp: bind_eq_Some_conv block_subst_def split: if_splits)

subsection \<open>The height of the result\<close>

lemma subst_each_height:
  assumes "height_ok hf S"
  shows "subst_each S c xs n r = Some (ok, xs', c') \<Longrightarrow> \<forall>x\<in>set xs. hf x \<le> k \<Longrightarrow>
         \<forall>x\<in>set xs'. hf x \<le> k + expr_height r"
proof (induction xs arbitrary: c xs')
  case Nil then show ?case by simp
next
  case (Cons x xs)
  from Cons.prems(1) show ?case
  proof (cases rule: subst_each_ConsE)
    case (stop x')
    then show ?thesis using Cons.prems(2) height_okD[OF assms stop(1)]
      by (auto intro: trans_le_add1)
  next
    case (continue x' c1 xs')
    then show ?thesis
      using Cons.prems(2) height_okD[OF assms continue(1)] Cons.IH[OF continue(2)] by auto
  qed
qed

lemma subst_each_length:
  "subst_each S c xs n r = Some (ok, xs', c') \<Longrightarrow> length xs' = length xs"
proof (induction xs arbitrary: c xs')
  case Nil then show ?case by simp
next
  case (Cons x xs)
  from Cons.prems(1) show ?case
    by (cases rule: subst_each_ConsE) (auto dest: Cons.IH)
qed

lemma subst_repeat_height:
  assumes "height_ok expr_height S" and "expr_height r = 0"
  shows "subst_repeat S count c e n r = Some (ok, e', c') \<Longrightarrow> expr_height e' \<le> expr_height e"
proof (induction count arbitrary: c e)
  case 0 then show ?case by simp
next
  case (Suc count)
  from Suc.prems show ?case
  proof (cases rule: subst_repeat_SucE)
    case stop
    then show ?thesis using height_okD[OF assms(1) stop(1)] assms(2) by simp
  next
    case (continue e1 c1)
    then show ?thesis
      using height_okD[OF assms(1) continue(1)] assms(2) Suc.IH[OF continue(2)] by simp
  qed
qed

lemma expr_func_type_loop_height:
  assumes S: "height_ok expr_height S"
  shows "expr_func_type_loop S F c ret ps n r = Some (ok, (ret', ps'), c') \<Longrightarrow>
         expr_height ret \<le> k \<Longrightarrow> \<forall>p\<in>set ps. expr_height (fst p) \<le> k \<Longrightarrow>
         expr_height ret' \<le> k + expr_height r
         \<and> (\<forall>p\<in>set ps'. expr_height (fst p) \<le> k + expr_height r)"
proof (induction ps arbitrary: c ret ps')
  case Nil
  from Nil.prems(1) show ?case
    by (cases rule: expr_func_type_loop_NilE) (use Nil.prems(2) in \<open>auto dest!: height_okD[OF S]\<close>)
next
  case (Cons p ps)
  obtain t nm where p: "p = (t, nm)" by (cases p)
  have rest: "\<forall>p\<in>set ps. expr_height (fst p) \<le> k + expr_height r"
    using Cons.prems(3) by (auto intro: trans_le_add1)
  have ret: "expr_height ret \<le> k + expr_height r" and t: "expr_height t \<le> k"
    using Cons.prems(2,3) by (simp_all add: p)
  note rn = subst_repeat_height[OF S, of "EXPR_IDENT _", simplified]
  from Cons.prems(1)[unfolded p] show ?case
  proof (cases rule: expr_func_type_loop_ConsE)
    case (stop t')
    then show ?thesis using rest ret t height_okD[OF S stop(1)] by simp
  next
    case (shadow t')
    then show ?thesis using rest ret t height_okD[OF S shadow(1)] by simp
  next
    case (keep t' c1 ps1)
    then show ?thesis
      using t height_okD[OF S keep(1)] Cons.IH[OF keep(4) Cons.prems(2)] Cons.prems(3)
      by simp
  next
    case (rename_stop1 t' c1 old new c2 t'')
    then show ?thesis
      using rest ret t height_okD[OF S rename_stop1(1)] rn[OF rename_stop1(6)] by simp
  next
    case (rename_stop2 t' c1 old new c2 t'' c3)
    then show ?thesis
      using rest ret t height_okD[OF S rename_stop2(1)] rn[OF rename_stop2(6)]
        height_okD[OF S rename_stop2(7)] Cons.prems(2) by simp
  next
    case (rename t' c1 old new c2 t'' c3 ret1 c4 ps1)
    have "expr_height ret1 \<le> k" using height_okD[OF S rename(7)] Cons.prems(2) by simp
    from Cons.IH[OF rename(8) this] Cons.prems(3)
    show ?thesis using rename t height_okD[OF S rename(1)] rn[OF rename(6)] by simp
  qed
qed

lemma expr_lambda_loop_height:
  assumes S: "height_ok expr_height S"
  shows "expr_lambda_loop S F b i c body ps n r = Some (ok, (body', ps'), c') \<Longrightarrow>
         expr_height body \<le> k \<Longrightarrow> \<forall>p\<in>set ps. expr_height (fst p) \<le> k \<Longrightarrow>
         expr_height body' \<le> k + expr_height r
         \<and> (\<forall>p\<in>set ps'. expr_height (fst p) \<le> k + expr_height r)"
proof (induction ps arbitrary: i c body ps')
  case Nil
  from Nil.prems(1) show ?case
    by (cases rule: expr_lambda_loop_NilE) (use Nil.prems(2) in \<open>auto dest!: height_okD[OF S]\<close>)
next
  case (Cons p ps)
  obtain t nm where p: "p = (t, nm)" by (cases p)
  have rest: "\<forall>p\<in>set ps. expr_height (fst p) \<le> k + expr_height r"
    using Cons.prems(3) by (auto intro: trans_le_add1)
  have ret: "expr_height body \<le> k + expr_height r" and t: "expr_height t \<le> k"
    using Cons.prems(2,3) by (simp_all add: p)
  note rn = subst_repeat_height[OF S, of "EXPR_IDENT _", simplified]
  from Cons.prems(1)[unfolded p] show ?case
  proof (cases rule: expr_lambda_loop_ConsE)
    case (stop t')
    then show ?thesis using rest ret t height_okD[OF S stop(1)] by simp
  next
    case (shadow t')
    then show ?thesis using rest ret t height_okD[OF S shadow(1)] by simp
  next
    case (keep t' c1 ps1)
    then show ?thesis
      using t height_okD[OF S keep(1)] Cons.IH[OF keep(4) Cons.prems(2)] Cons.prems(3)
      by simp
  next
    case (rename_stop1 t' c1 new c2 t'')
    then show ?thesis
      using rest ret t height_okD[OF S rename_stop1(1)] rn[OF rename_stop1(5)] by simp
  next
    case (rename_stop2 t' c1 new c2 t'' c3)
    then show ?thesis
      using rest ret t height_okD[OF S rename_stop2(1)] rn[OF rename_stop2(5)]
        height_okD[OF S rename_stop2(6)] Cons.prems(2) by simp
  next
    case (rename t' c1 new c2 t'' c3 body1 c4 ps1)
    have "expr_height body1 \<le> k" using height_okD[OF S rename(6)] Cons.prems(2) by simp
    from Cons.IH[OF rename(7) this] Cons.prems(3)
    show ?thesis using rename t height_okD[OF S rename(1)] rn[OF rename(5)] by simp
  qed
qed

lemma expr_struct_loop_height:
  assumes S: "height_ok expr_height S"
  shows "expr_struct_loop S F c fs n r = Some (ok, fs', c') \<Longrightarrow>
         \<forall>p\<in>set fs. expr_height (fst p) \<le> k \<Longrightarrow>
         \<forall>p\<in>set fs'. expr_height (fst p) \<le> k + expr_height r"
proof (induction fs arbitrary: c fs')
  case Nil then show ?case by simp
next
  case (Cons p fs)
  obtain t f where p: "p = (t, f)" by (cases p)
  have rest: "\<forall>p\<in>set fs. expr_height (fst p) \<le> k + expr_height r"
    using Cons.prems(2) by (auto intro: trans_le_add1)
  have t: "expr_height t \<le> k" using Cons.prems(2) by (simp add: p)
  from Cons.prems(1)[unfolded p] show ?case
  proof (cases rule: expr_struct_loop_ConsE)
    case (continue t' c1 fs1)
    then show ?thesis
      using t height_okD[OF S continue(1)] Cons.IH[OF continue(4)] Cons.prems(2) by simp
  qed (use rest t in \<open>auto dest!: height_okD[OF S]\<close>)
qed

lemma expr_pack_loop_height:
  assumes S: "height_ok expr_height S"
  shows "expr_pack_loop S F c as n r = Some (ok, as', c') \<Longrightarrow>
         \<forall>p\<in>set as. expr_height (snd p) \<le> k \<Longrightarrow>
         \<forall>p\<in>set as'. expr_height (snd p) \<le> k + expr_height r"
proof (induction as arbitrary: c as')
  case Nil then show ?case by simp
next
  case (Cons p as)
  obtain f a where p: "p = (f, a)" by (cases p)
  have rest: "\<forall>p\<in>set as. expr_height (snd p) \<le> k + expr_height r"
    using Cons.prems(2) by (auto intro: trans_le_add1)
  have t: "expr_height a \<le> k" using Cons.prems(2) by (simp add: p)
  from Cons.prems(1)[unfolded p] show ?case
  proof (cases rule: expr_pack_loop_ConsE)
    case (continue a' c1 as1)
    then show ?thesis
      using t height_okD[OF S continue(1)] Cons.IH[OF continue(4)] Cons.prems(2) by simp
  qed (use rest t in \<open>auto dest!: height_okD[OF S]\<close>)
qed

lemma ifthenelse_subst_loop_height:
  assumes S: "height_ok expr_height S" and SS: "height_ok statement_height SS"
  shows "ifthenelse_subst_loop S SS c ifs n r = Some (ok, ifs', c') \<Longrightarrow>
         \<forall>p\<in>set ifs. expr_height (fst p) \<le> k \<and> (\<forall>s\<in>set (snd p). statement_height s \<le> k) \<Longrightarrow>
         \<forall>p\<in>set ifs'. expr_height (fst p) \<le> k + expr_height r
            \<and> (\<forall>s\<in>set (snd p). statement_height s \<le> k + expr_height r)"
proof (induction ifs arbitrary: c ifs')
  case Nil then show ?case by simp
next
  case (Cons p ifs)
  obtain e b where p: "p = (e, b)" by (cases p)
  have rest: "\<forall>p\<in>set ifs. expr_height (fst p) \<le> k + expr_height r
            \<and> (\<forall>s\<in>set (snd p). statement_height s \<le> k + expr_height r)"
    using Cons.prems(2) by (auto intro: trans_le_add1)
  have e: "expr_height e \<le> k" and b: "\<forall>s\<in>set b. statement_height s \<le> k"
    using Cons.prems(2) by (simp_all add: p)
  have b': "\<forall>s\<in>set b. statement_height s \<le> k + expr_height r"
    using b by (auto intro: trans_le_add1)
  from Cons.prems(1)[unfolded p] show ?case
  proof (cases rule: ifthenelse_subst_loop_ConsE)
    case (stop1 e')
    then show ?thesis using rest e b' height_okD[OF S stop1(1)] by simp
  next
    case (stop2 e' c1 b')
    then show ?thesis
      using rest e height_okD[OF S stop2(1)] subst_each_height[OF SS stop2(2) b] by simp
  next
    case (continue e' c1 b' c2 ifs1)
    then show ?thesis
      using e height_okD[OF S continue(1)] subst_each_height[OF SS continue(2) b]
        Cons.IH[OF continue(3)] Cons.prems(2) by simp
  qed
qed


lemma height_max_fst_le_iff:
  "height_max (map fst (map (map_prod f id) ps)) \<le> k \<longleftrightarrow> (\<forall>p\<in>set ps. f (fst p) \<le> k)"
  by (auto simp: height_max_le_iff)

lemma height_max_snd_le_iff:
  "height_max (map snd (map (map_prod id f) ps)) \<le> k \<longleftrightarrow> (\<forall>p\<in>set ps. f (snd p) \<le> k)"
  by (auto simp: height_max_le_iff)

lemma height_max_map_le_iff:
  "height_max (map f xs) \<le> k \<longleftrightarrow> (\<forall>x\<in>set xs. f x \<le> k)"
  by (auto simp: height_max_le_iff)

lemma height_max_ifs_le_iff:
  "height_max (map (\<lambda>(c, b). max c (height_max b))
     (map (map_prod expr_height (map statement_height)) ifs)) \<le> k \<longleftrightarrow>
   (\<forall>p\<in>set ifs. expr_height (fst p) \<le> k \<and> (\<forall>s\<in>set (snd p). statement_height s \<le> k))"
  by (auto simp: height_max_le_iff)

lemmas height_le_iffs = height_max_fst_le_iff height_max_snd_le_iff height_max_map_le_iff
  height_max_ifs_le_iff

lemma expr_height_FUNC_TYPE_le:
  "expr_height (EXPR_FUNC_TYPE r ps) \<le> Suc k \<longleftrightarrow>
   expr_height r \<le> k \<and> (\<forall>p\<in>set ps. expr_height (fst p) \<le> k)"
  by (simp add: height_le_iffs)

lemma expr_height_LAMBDA_le:
  "expr_height (EXPR_LAMBDA ps b) \<le> Suc k \<longleftrightarrow>
   expr_height b \<le> k \<and> (\<forall>p\<in>set ps. expr_height (fst p) \<le> k)"
  by (simp add: height_le_iffs)

lemma expr_height_CALL_le:
  "expr_height (EXPR_CALL f args) \<le> Suc k \<longleftrightarrow>
   expr_height f \<le> k \<and> (\<forall>x\<in>set args. expr_height x \<le> k)"
  by (simp add: height_le_iffs)

lemma expr_height_STRUCT_le:
  "expr_height (EXPR_STRUCT fs) \<le> Suc k \<longleftrightarrow> (\<forall>p\<in>set fs. expr_height (fst p) \<le> k)"
  by (simp add: height_le_iffs)

lemma expr_height_UNION_le:
  "expr_height (EXPR_UNION fs) \<le> Suc k \<longleftrightarrow> (\<forall>p\<in>set fs. expr_height (fst p) \<le> k)"
  by (simp add: height_le_iffs)

lemma expr_height_PACK_le:
  "expr_height (EXPR_PACK t as) \<le> Suc k \<longleftrightarrow>
   expr_height t \<le> k \<and> (\<forall>p\<in>set as. expr_height (snd p) \<le> k)"
  by (simp add: height_le_iffs)

lemma statement_height_BLOCK_le:
  "statement_height (STATEMENT_BLOCK b) \<le> Suc k \<longleftrightarrow> (\<forall>s\<in>set b. statement_height s \<le> k)"
  by (simp add: height_le_iffs)

lemma statement_height_IFTHENELSE_le:
  "statement_height (STATEMENT_IFTHENELSE ifs els) \<le> Suc k \<longleftrightarrow>
   (\<forall>p\<in>set ifs. expr_height (fst p) \<le> k \<and> (\<forall>s\<in>set (snd p). statement_height s \<le> k))
   \<and> (\<forall>s\<in>set els. statement_height s \<le> k)"
  by (auto simp: height_max_le_iff split: prod.splits)

lemmas node_height_le = expr_height_FUNC_TYPE_le expr_height_LAMBDA_le expr_height_CALL_le
  expr_height_STRUCT_le expr_height_UNION_le expr_height_PACK_le statement_height_BLOCK_le
  statement_height_IFTHENELSE_le

lemma node_height_pred:
  "\<exists>k. expr_height (EXPR_FUNC_TYPE r ps) = Suc k"
  "\<exists>k. expr_height (EXPR_LAMBDA qs b) = Suc k"
  "\<exists>k. expr_height (EXPR_CALL f args) = Suc k"
  "\<exists>k. expr_height (EXPR_STRUCT fs) = Suc k"
  "\<exists>k. expr_height (EXPR_UNION fs) = Suc k"
  "\<exists>k. expr_height (EXPR_PACK t as) = Suc k"
  "\<exists>k. statement_height (STATEMENT_BLOCK bl) = Suc k"
  "\<exists>k. statement_height (STATEMENT_IFTHENELSE ifs els) = Suc k"
  by simp_all

lemma expr_func_type_subst_height:
  assumes S: "height_ok expr_height S"
    and res: "expr_func_type_subst S c ret ps n r = Some (ok, e', c')"
  shows "expr_height e' \<le> expr_height (EXPR_FUNC_TYPE ret ps) + expr_height r"
proof -
  obtain k where k: "expr_height (EXPR_FUNC_TYPE ret ps) = Suc k"
    using node_height_pred(1) by blast
  then have b: "expr_height ret \<le> k" "\<forall>p\<in>set ps. expr_height (fst p) \<le> k"
    using expr_height_FUNC_TYPE_le[of ret ps k] by simp_all
  from res obtain ret' ps' where
    l: "expr_func_type_loop S (expr_free_vars r) c ret ps n r = Some (ok, (ret', ps'), c')"
    and e': "e' = EXPR_FUNC_TYPE ret' ps'"
    by (auto simp: expr_func_type_subst_def bind_eq_Some_conv)
  from expr_func_type_loop_height[OF S l b]
  have "expr_height e' \<le> Suc (k + expr_height r)"
    unfolding e' expr_height_FUNC_TYPE_le by simp
  then show ?thesis using k by simp
qed

lemma expr_lambda_subst_height:
  assumes S: "height_ok expr_height S"
    and res: "expr_lambda_subst S layout c ps body n r = Some (ok, e', c')"
  shows "expr_height e' \<le> expr_height (EXPR_LAMBDA ps body) + expr_height r"
proof -
  obtain k where k: "expr_height (EXPR_LAMBDA ps body) = Suc k"
    using node_height_pred(2) by blast
  then have b: "expr_height body \<le> k" "\<forall>p\<in>set ps. expr_height (fst p) \<le> k"
    using expr_height_LAMBDA_le[of ps body k] by simp_all
  from res obtain body' ps' where
    l: "expr_lambda_loop S (expr_free_vars r) (layout ps) 0 c body ps n r
        = Some (ok, (body', ps'), c')"
    and e': "e' = EXPR_LAMBDA ps' body'"
    by (auto simp: expr_lambda_subst_def bind_eq_Some_conv)
  from expr_lambda_loop_height[OF S l b]
  have "expr_height e' \<le> Suc (k + expr_height r)"
    unfolding e' expr_height_LAMBDA_le by simp
  then show ?thesis using k by simp
qed

lemma expr_struct_subst_height:
  assumes S: "height_ok expr_height S"
    and res: "expr_struct_subst S c fs n r = Some (ok, e', c')"
  shows "expr_height e' \<le> expr_height (EXPR_STRUCT fs) + expr_height r"
proof -
  obtain k where k: "expr_height (EXPR_STRUCT fs) = Suc k"
    using node_height_pred(4) by blast
  then have b: "\<forall>p\<in>set fs. expr_height (fst p) \<le> k"
    using expr_height_STRUCT_le[of fs k] by simp_all
  from res obtain fs' where
    l: "expr_struct_loop S (expr_free_vars r) c fs n r = Some (ok, fs', c')"
    and e': "e' = EXPR_STRUCT fs'"
    by (auto simp: expr_struct_subst_def bind_eq_Some_conv)
  from expr_struct_loop_height[OF S l b]
  have "expr_height e' \<le> Suc (k + expr_height r)"
    unfolding e' expr_height_STRUCT_le by simp
  then show ?thesis using k by simp
qed

lemma expr_pack_subst_height:
  assumes S: "height_ok expr_height S"
    and res: "expr_pack_subst S c ty as n r = Some (ok, e', c')"
  shows "expr_height e' \<le> expr_height (EXPR_PACK ty as) + expr_height r"
proof -
  obtain k where k: "expr_height (EXPR_PACK ty as) = Suc k"
    using node_height_pred(6) by blast
  then have b: "expr_height ty \<le> k" "\<forall>p\<in>set as. expr_height (snd p) \<le> k"
    using expr_height_PACK_le[of ty as k] by simp_all
  from res obtain as' where
    l: "expr_pack_loop S (expr_free_vars r) c as n r = Some (ok, as', c')"
    and e': "e' = EXPR_PACK ty as'"
    by (auto simp: expr_pack_subst_def bind_eq_Some_conv)
  from expr_pack_loop_height[OF S l b(2)] b(1)
  have "expr_height e' \<le> Suc (k + expr_height r)"
    unfolding e' expr_height_PACK_le by simp
  then show ?thesis using k by simp
qed

lemma expr_copy_id: "expr_copy e = e" and statement_copy_id: "statement_copy s = s"
proof (induction e and s)
  case (EXPR_FUNC_TYPE r ps)
  then show ?case by (auto simp: prod_set_defs intro!: map_idI)
next
  case (EXPR_LAMBDA ps b)
  then show ?case by (auto simp: prod_set_defs intro!: map_idI)
next
  case (EXPR_CALL f args)
  then show ?case by (auto intro!: map_idI)
next
  case (EXPR_STRUCT fs)
  then show ?case by (auto simp: prod_set_defs intro!: map_idI)
next
  case (EXPR_UNION fs)
  then show ?case by (auto simp: prod_set_defs intro!: map_idI)
next
  case (EXPR_PACK t as)
  then show ?case by (auto simp: prod_set_defs intro!: map_idI)
next
  case (STATEMENT_BLOCK b)
  then show ?case by (auto intro!: map_idI)
next
  case (STATEMENT_DECL t n i)
  then show ?case by (cases i) auto
next
  case (STATEMENT_IFTHENELSE ifs els)
  then show ?case by (auto simp: prod_set_defs intro!: map_idI)
qed simp_all

lemma subst_fuel_height:
  "height_ok expr_height (expr_subst_fuel layout d)
   \<and> height_ok statement_height (statement_subst_fuel layout d)"
proof (induction d)
  case 0
  show ?case by (simp add: height_ok_def)
next
  case (Suc d)
  then have S: "height_ok expr_height (expr_subst_fuel layout d)"
    and SS: "height_ok statement_height (statement_subst_fuel layout d)" by simp_all
  note D = height_okD[OF S] and DS = height_okD[OF SS]
  have E: "expr_height e' \<le> expr_height e + expr_height r"
    if res: "expr_subst_fuel layout (Suc d) c e n r = Some (ok, e', c')" for c e n r ok e' c'
  proof (cases e)
    case (EXPR_LITERAL l)
    then show ?thesis using res by auto
  next
    case (EXPR_IDENT s)
    then show ?thesis using res by (auto simp: expr_copy_id)
  next
    case (EXPR_BIN_OP op e1 e2)
    then show ?thesis using res
      by (auto simp: bind_eq_Some_conv split: if_splits dest!: D)
  next
    case (EXPR_IFTHENELSE p t el)
    then show ?thesis using res
      by (auto simp: bind_eq_Some_conv split: if_splits dest!: D)
  next
    case (EXPR_FUNC_TYPE ret ps)
    then show ?thesis using res expr_func_type_subst_height[OF S] by simp
  next
    case (EXPR_LAMBDA ps body)
    then show ?thesis using res expr_lambda_subst_height[OF S] by simp
  next
    case (EXPR_CALL f args)
    obtain k where k: "expr_height (EXPR_CALL f args) = Suc k"
      using node_height_pred(3) by blast
    then have b: "expr_height f \<le> k" "\<forall>x\<in>set args. expr_height x \<le> k"
      using expr_height_CALL_le[of f args k] by simp_all
    have b2: "\<forall>x\<in>set args. expr_height x \<le> k + expr_height r"
      using b(2) by (auto intro: trans_le_add1)
    from res[unfolded EXPR_CALL] have "expr_height e' \<le> Suc (k + expr_height r)"
      using b b2 
      by (auto simp: bind_eq_Some_conv expr_height_CALL_le simp del: expr_height.simps
          split: if_splits dest!: D subst_each_height[OF S _ b(2)])
    then show ?thesis using k EXPR_CALL by simp
  next
    case (EXPR_STRUCT fs)
    then show ?thesis using res expr_struct_subst_height[OF S] by simp
  next
    case (EXPR_UNION fs)
    obtain k where k: "expr_height (EXPR_UNION fs) = Suc k"
      using node_height_pred(5) by blast
    then have b: "\<forall>x\<in>set (map fst fs). expr_height x \<le> k"
      using expr_height_UNION_le[of fs k] by simp_all
    from res[unfolded EXPR_UNION] obtain tys where
      l: "subst_each (expr_subst_fuel layout d) c (map fst fs) n r = Some (ok, tys, c')"
      and e': "e' = EXPR_UNION (zip tys (map snd fs))"
      by (auto simp: bind_eq_Some_conv)
    have "\<forall>p\<in>set (zip tys (map snd fs)). expr_height (fst p) \<le> k + expr_height r"
      using subst_each_height[OF S l b] by (auto dest: set_zip_leftD)
    then have "expr_height e' \<le> Suc (k + expr_height r)"
      unfolding e' expr_height_UNION_le .
    then show ?thesis using k EXPR_UNION by simp
  next
    case (EXPR_PACK ty as)
    then show ?thesis using res expr_pack_subst_height[OF S] by simp
  next
    case (EXPR_MEMBER rcd f)
    then show ?thesis using res by (auto simp: bind_eq_Some_conv dest!: D)
  next
    case (EXPR_POINTER x)
    then show ?thesis using res by (auto simp: bind_eq_Some_conv dest!: D)
  next
    case (EXPR_REFERENCE x)
    then show ?thesis using res by (auto simp: bind_eq_Some_conv dest!: D)
  next
    case (EXPR_DEREFERENCE x)
    then show ?thesis using res by (auto simp: bind_eq_Some_conv dest!: D)
  next
    case (EXPR_STATEMENT s)
    then show ?thesis using res by (auto simp: bind_eq_Some_conv dest!: DS)
  qed
  have St: "statement_height s' \<le> statement_height s + expr_height r"
    if res: "statement_subst_fuel layout (Suc d) c s n r = Some (ok, s', c')"
    for c s n r ok s' c'
  proof (cases s)
    case STATEMENT_EMPTY
    then show ?thesis using res by auto
  next
    case (STATEMENT_EXPR e)
    then show ?thesis using res by (auto simp: bind_eq_Some_conv dest!: D)
  next
    case (STATEMENT_RETURN e)
    then show ?thesis using res by (auto simp: bind_eq_Some_conv dest!: D)
  next
    case (STATEMENT_BLOCK b)
    obtain k where k: "statement_height (STATEMENT_BLOCK b) = Suc k"
      using node_height_pred(7) by blast
    then have b: "\<forall>x\<in>set b. statement_height x \<le> k"
      using statement_height_BLOCK_le[of b k] by simp_all
    from res[unfolded STATEMENT_BLOCK] obtain b' where
      l: "subst_each (statement_subst_fuel layout d) c b n r = Some (ok, b', c')"
      and s': "s' = STATEMENT_BLOCK b'"
      by (auto simp: bind_eq_Some_conv block_subst_def)
    have "statement_height s' \<le> Suc (k + expr_height r)"
      using subst_each_height[OF SS l b] unfolding s' statement_height_BLOCK_le .
    then show ?thesis using k STATEMENT_BLOCK by simp
  next
    case (STATEMENT_DECL t nm i)
    then show ?thesis using res
      by (cases i) (auto simp: bind_eq_Some_conv split: if_splits dest!: D)
  next
    case (STATEMENT_IFTHENELSE ifs els)
    obtain k where k: "statement_height (STATEMENT_IFTHENELSE ifs els) = Suc k"
      using node_height_pred(8) by blast
    then have b: "\<forall>p\<in>set ifs. expr_height (fst p) \<le> k \<and> (\<forall>s\<in>set (snd p). statement_height s \<le> k)"
      "\<forall>s\<in>set els. statement_height s \<le> k"
      using statement_height_IFTHENELSE_le[of ifs els k] by simp_all
    have b2: "\<forall>s\<in>set els. statement_height s \<le> k + expr_height r"
      using b(2) by (auto intro: trans_le_add1)
    from res[unfolded STATEMENT_IFTHENELSE] obtain ok1 ifs' c1 where
      l: "ifthenelse_subst_loop (expr_subst_fuel layout d) (statement_subst_fuel layout d)
            c ifs n r = Some (ok1, ifs', c1)"
      by (auto simp: bind_eq_Some_conv)
    note i = ifthenelse_subst_loop_height[OF S SS l b(1)]
    have "statement_height s' \<le> Suc (k + expr_height r)"
    proof (cases ok1)
      case False
      then have s': "s' = STATEMENT_IFTHENELSE ifs' els"
        using res[unfolded STATEMENT_IFTHENELSE] l by simp
      show ?thesis unfolding s' statement_height_IFTHENELSE_le using i b2 by simp
    next
      case True
      then obtain els' where
        l2: "subst_each (statement_subst_fuel layout d) c1 els n r = Some (ok, els', c')"
        and s': "s' = STATEMENT_IFTHENELSE ifs' els'"
        using res[unfolded STATEMENT_IFTHENELSE] l
        by (auto simp: bind_eq_Some_conv block_subst_def)
      show ?thesis unfolding s' statement_height_IFTHENELSE_le
        using i subst_each_height[OF SS l2 b(2)] by simp
    qed
    then show ?thesis using k STATEMENT_IFTHENELSE by simp
  qed
  show ?case unfolding height_ok_def using E St by blast
qed


subsection \<open>Every call returns when the depth is above the two heights\<close>

lemma subst_each_total:
  assumes "total_below hf S d"
  shows "\<forall>x\<in>set xs. hf x + expr_height r < d \<Longrightarrow>
         \<exists>ok xs' c'. subst_each S c xs n r = Some (ok, xs', c')"
proof (induction xs arbitrary: c)
  case Nil then show ?case by auto
next
  case (Cons x xs)
  obtain ok x' c1 where 1: "S c x n r = Some (ok, x', c1)"
    using total_belowD[OF assms, of x r c n] Cons.prems by auto
  obtain ok' xs' c' where 2: "subst_each S c1 xs n r = Some (ok', xs', c')"
    using Cons.IH[of c1] Cons.prems by auto
  show ?case using 1 2 by auto
qed

lemma subst_repeat_total:
  assumes T: "total_below expr_height S d" and H: "height_ok expr_height S"
    and r: "expr_height r = 0"
  shows "expr_height e < d \<Longrightarrow> \<exists>ok e' c'. subst_repeat S count c e n r = Some (ok, e', c')"
proof (induction count arbitrary: c e)
  case 0 then show ?case by auto
next
  case (Suc count)
  obtain ok e1 c1 where 1: "S c e n r = Some (ok, e1, c1)"
    using total_belowD[OF T, of e r c n] Suc.prems r by auto
  have "expr_height e1 < d" using height_okD[OF H 1] r Suc.prems by simp
  from Suc.IH[OF this, of c1] obtain ok' e' c' where
    2: "subst_repeat S count c1 e1 n r = Some (ok', e', c')" by auto
  show ?case using 1 2 by auto
qed

lemma expr_func_type_loop_total:
  assumes T: "total_below expr_height S d" and H: "height_ok expr_height S"
  shows "expr_height ret + expr_height r < d \<Longrightarrow>
         \<forall>p\<in>set ps. expr_height (fst p) + expr_height r < d \<Longrightarrow>
         \<exists>ok ret' ps' c'. expr_func_type_loop S F c ret ps n r = Some (ok, (ret', ps'), c')"
proof (induction ps arbitrary: c ret)
  case Nil
  obtain ok ret' c' where "S c ret n r = Some (ok, ret', c')"
    using total_belowD[OF T, of ret r c n] Nil.prems by auto
  then show ?case by auto
next
  case (Cons p ps)
  obtain t nm where p: "p = (t, nm)" by (cases p)
  obtain ok1 t' c1 where 1: "S c t n r = Some (ok1, t', c1)"
    using total_belowD[OF T, of t r c n] Cons.prems(2) by (auto simp: p)
  have t': "expr_height t' < d" using height_okD[OF H 1] Cons.prems(2) by (simp add: p)
  have ret: "expr_height ret < d" using Cons.prems(1) by simp
  have rest: "\<forall>p\<in>set ps. expr_height (fst p) + expr_height r < d"
    using Cons.prems(2) by simp
  obtain okk retk psk ck where
    k: "expr_func_type_loop S F c1 ret ps n r = Some (okk, (retk, psk), ck)"
    using Cons.IH[OF Cons.prems(1) rest, of c1] by auto
  show ?case
  proof (cases "\<exists>old. nm = Some old \<and> old \<noteq> n \<and> symbol_set_contains F old")
    case False
    then show ?thesis using 1 k by (cases nm) (auto simp: p)
  next
    case True
    then obtain old where old: "nm = Some old" "old \<noteq> n" "symbol_set_contains F old" by auto
    obtain new c2 where g: "symbol_gensym c1 old = (new, c2)"
      by (cases "symbol_gensym c1 old")
    obtain ok2 t'' c3 where
      2: "subst_repeat S (length ps) c2 t' old (EXPR_IDENT new) = Some (ok2, t'', c3)"
      using subst_repeat_total[OF T H _ t', of "EXPR_IDENT new" "length ps" c2 old] by auto
    obtain ok3 ret1 c4 where 3: "S c3 ret old (EXPR_IDENT new) = Some (ok3, ret1, c4)"
      using total_belowD[OF T, of ret "EXPR_IDENT new" c3 old] ret by auto
    have "expr_height ret1 + expr_height r < d"
      using height_okD[OF H 3] Cons.prems(1) by simp
    from Cons.IH[OF this rest, of c4] obtain ok4 ret4 ps4 c5 where
      4: "expr_func_type_loop S F c4 ret1 ps n r = Some (ok4, (ret4, ps4), c5)" by auto
    show ?thesis using 1 old g 2 3 4 by (auto simp: p)
  qed
qed

lemma expr_lambda_loop_total:
  assumes T: "total_below expr_height S d" and H: "height_ok expr_height S"
  shows "expr_height body + expr_height r < d \<Longrightarrow>
         \<forall>p\<in>set ps. expr_height (fst p) + expr_height r < d \<Longrightarrow>
         \<exists>ok body' ps' c'. expr_lambda_loop S F b i c body ps n r = Some (ok, (body', ps'), c')"
proof (induction ps arbitrary: i c body)
  case Nil
  obtain ok body' c' where "S c body n r = Some (ok, body', c')"
    using total_belowD[OF T, of body r c n] Nil.prems by auto
  then show ?case by auto
next
  case (Cons p ps)
  obtain t old where p: "p = (t, old)" by (cases p)
  obtain ok1 t' c1 where 1: "S c t n r = Some (ok1, t', c1)"
    using total_belowD[OF T, of t r c n] Cons.prems(2) by (auto simp: p)
  have t': "expr_height t' < d" using height_okD[OF H 1] Cons.prems(2) by (simp add: p)
  have body: "expr_height body < d" using Cons.prems(1) by simp
  have rest: "\<forall>p\<in>set ps. expr_height (fst p) + expr_height r < d"
    using Cons.prems(2) by simp
  obtain okk retk psk ck where
    k: "expr_lambda_loop S F b (i + 1) c1 body ps n r = Some (okk, (retk, psk), ck)"
    using Cons.IH[OF Cons.prems(1) rest, of "i + 1" c1] by auto
  show ?case
  proof (cases "old \<noteq> n \<and> symbol_set_contains F old")
    case False
    then show ?thesis using 1 k by (auto simp: p)
  next
    case True
    obtain new c2 where g: "symbol_gensym c1 old = (new, c2)"
      by (cases "symbol_gensym c1 old")
    obtain ok2 t'' c3 where
      2: "subst_repeat S (b - (i + 1)) c2 t' old (EXPR_IDENT new) = Some (ok2, t'', c3)"
      using subst_repeat_total[OF T H _ t', of "EXPR_IDENT new" "b - (i + 1)" c2 old] by auto
    obtain ok3 body1 c4 where 3: "S c3 body old (EXPR_IDENT new) = Some (ok3, body1, c4)"
      using total_belowD[OF T, of body "EXPR_IDENT new" c3 old] body by auto
    have "expr_height body1 + expr_height r < d"
      using height_okD[OF H 3] Cons.prems(1) by simp
    from Cons.IH[OF this rest, of "i + 1" c4] obtain ok4 ret4 ps4 c5 where
      4: "expr_lambda_loop S F b (i + 1) c4 body1 ps n r = Some (ok4, (ret4, ps4), c5)" by auto
    show ?thesis using 1 True g 2 3 4 by (auto simp: p)
  qed
qed

lemma expr_struct_loop_total:
  assumes T: "total_below expr_height S d"
  shows "\<forall>p\<in>set fs. expr_height (fst p) + expr_height r < d \<Longrightarrow>
         \<exists>ok fs' c'. expr_struct_loop S F c fs n r = Some (ok, fs', c')"
proof (induction fs arbitrary: c)
  case Nil then show ?case by auto
next
  case (Cons p fs)
  obtain t f where p: "p = (t, f)" by (cases p)
  obtain ok1 t' c1 where 1: "S c t n r = Some (ok1, t', c1)"
    using total_belowD[OF T, of t r c n] Cons.prems by (auto simp: p)
  obtain ok' fs' c' where 2: "expr_struct_loop S F c1 fs n r = Some (ok', fs', c')"
    using Cons.IH[of c1] Cons.prems by auto
  show ?case using 1 2 by (auto simp: p)
qed

lemma expr_pack_loop_total:
  assumes T: "total_below expr_height S d"
  shows "\<forall>p\<in>set as. expr_height (snd p) + expr_height r < d \<Longrightarrow>
         \<exists>ok as' c'. expr_pack_loop S F c as n r = Some (ok, as', c')"
proof (induction as arbitrary: c)
  case Nil then show ?case by auto
next
  case (Cons p as)
  obtain f a where p: "p = (f, a)" by (cases p)
  obtain ok1 a' c1 where 1: "S c a n r = Some (ok1, a', c1)"
    using total_belowD[OF T, of a r c n] Cons.prems by (auto simp: p)
  obtain ok' as' c' where 2: "expr_pack_loop S F c1 as n r = Some (ok', as', c')"
    using Cons.IH[of c1] Cons.prems by auto
  show ?case using 1 2 by (auto simp: p)
qed

lemma ifthenelse_subst_loop_total:
  assumes T: "total_below expr_height S d" and TS: "total_below statement_height SS d"
  shows "\<forall>p\<in>set ifs. expr_height (fst p) + expr_height r < d
            \<and> (\<forall>s\<in>set (snd p). statement_height s + expr_height r < d) \<Longrightarrow>
         \<exists>ok ifs' c'. ifthenelse_subst_loop S SS c ifs n r = Some (ok, ifs', c')"
proof (induction ifs arbitrary: c)
  case Nil then show ?case by auto
next
  case (Cons p ifs)
  obtain e b where p: "p = (e, b)" by (cases p)
  obtain ok1 e' c1 where 1: "S c e n r = Some (ok1, e', c1)"
    using total_belowD[OF T, of e r c n] Cons.prems by (auto simp: p)
  obtain ok2 b' c2 where 2: "subst_each SS c1 b n r = Some (ok2, b', c2)"
    using subst_each_total[OF TS, of b r c1 n] Cons.prems by (auto simp: p)
  obtain ok' ifs' c' where 3: "ifthenelse_subst_loop S SS c2 ifs n r = Some (ok', ifs', c')"
    using Cons.IH[of c2] Cons.prems by auto
  show ?case using 1 2 3 by (auto simp: p block_subst_def)
qed

lemma node_children_below:
  "expr_height (EXPR_FUNC_TYPE ret ps) + h < Suc d \<Longrightarrow>
     expr_height ret + h < d \<and> (\<forall>p\<in>set ps. expr_height (fst p) + h < d)"
  "expr_height (EXPR_LAMBDA qs body) + h < Suc d \<Longrightarrow>
     expr_height body + h < d \<and> (\<forall>p\<in>set qs. expr_height (fst p) + h < d)"
  "expr_height (EXPR_CALL f args) + h < Suc d \<Longrightarrow>
     expr_height f + h < d \<and> (\<forall>x\<in>set args. expr_height x + h < d)"
  "expr_height (EXPR_STRUCT fs) + h < Suc d \<Longrightarrow> (\<forall>p\<in>set fs. expr_height (fst p) + h < d)"
  "expr_height (EXPR_UNION fs) + h < Suc d \<Longrightarrow> (\<forall>p\<in>set fs. expr_height (fst p) + h < d)"
  "expr_height (EXPR_PACK ty as) + h < Suc d \<Longrightarrow>
     expr_height ty + h < d \<and> (\<forall>p\<in>set as. expr_height (snd p) + h < d)"
  "statement_height (STATEMENT_BLOCK bl) + h < Suc d \<Longrightarrow>
     (\<forall>s\<in>set bl. statement_height s + h < d)"
  "statement_height (STATEMENT_IFTHENELSE ifs els) + h < Suc d \<Longrightarrow>
     (\<forall>p\<in>set ifs. expr_height (fst p) + h < d
         \<and> (\<forall>s\<in>set (snd p). statement_height s + h < d))
     \<and> (\<forall>s\<in>set els. statement_height s + h < d)"
proof -
  have a: "x + h < d" if "Suc k + h < Suc d" "x \<le> k" for x k :: nat
    using that by simp
  show "expr_height (EXPR_FUNC_TYPE ret ps) + h < Suc d \<Longrightarrow>
     expr_height ret + h < d \<and> (\<forall>p\<in>set ps. expr_height (fst p) + h < d)"
    using node_height_pred(1)[of ret ps] expr_height_FUNC_TYPE_le[of ret ps] a
    by (metis order_refl)
  show "expr_height (EXPR_LAMBDA qs body) + h < Suc d \<Longrightarrow>
     expr_height body + h < d \<and> (\<forall>p\<in>set qs. expr_height (fst p) + h < d)"
    using node_height_pred(2)[of qs body] expr_height_LAMBDA_le[of qs body] a
    by (metis order_refl)
  show "expr_height (EXPR_CALL f args) + h < Suc d \<Longrightarrow>
     expr_height f + h < d \<and> (\<forall>x\<in>set args. expr_height x + h < d)"
    using node_height_pred(3)[of f args] expr_height_CALL_le[of f args] a
    by (metis order_refl)
  show "expr_height (EXPR_STRUCT fs) + h < Suc d \<Longrightarrow> (\<forall>p\<in>set fs. expr_height (fst p) + h < d)"
    using node_height_pred(4)[of fs] expr_height_STRUCT_le[of fs] a
    by (metis order_refl)
  show "expr_height (EXPR_UNION fs) + h < Suc d \<Longrightarrow> (\<forall>p\<in>set fs. expr_height (fst p) + h < d)"
    using node_height_pred(5)[of fs] expr_height_UNION_le[of fs] a
    by (metis order_refl)
  show "expr_height (EXPR_PACK ty as) + h < Suc d \<Longrightarrow>
     expr_height ty + h < d \<and> (\<forall>p\<in>set as. expr_height (snd p) + h < d)"
    using node_height_pred(6)[of ty as] expr_height_PACK_le[of ty as] a
    by (metis order_refl)
  show "statement_height (STATEMENT_BLOCK bl) + h < Suc d \<Longrightarrow>
     (\<forall>s\<in>set bl. statement_height s + h < d)"
    using node_height_pred(7)[of bl] statement_height_BLOCK_le[of bl] a
    by (metis order_refl)
  show "statement_height (STATEMENT_IFTHENELSE ifs els) + h < Suc d \<Longrightarrow>
     (\<forall>p\<in>set ifs. expr_height (fst p) + h < d
         \<and> (\<forall>s\<in>set (snd p). statement_height s + h < d))
     \<and> (\<forall>s\<in>set els. statement_height s + h < d)"
    using node_height_pred(8)[of ifs els] statement_height_IFTHENELSE_le[of ifs els] a
    by (metis order_refl)
qed

lemma subst_fuel_total:
  "total_below expr_height (expr_subst_fuel layout d) d
   \<and> total_below statement_height (statement_subst_fuel layout d) d"
proof (induction d)
  case 0
  show ?case by (simp add: total_below_def)
next
  case (Suc d)
  then have T: "total_below expr_height (expr_subst_fuel layout d) d"
    and TS: "total_below statement_height (statement_subst_fuel layout d) d" by simp_all
  have H: "height_ok expr_height (expr_subst_fuel layout d)"
    and HS: "height_ok statement_height (statement_subst_fuel layout d)"
    using subst_fuel_height by simp_all
  note D = total_belowD[OF T] and DS = total_belowD[OF TS]
  have E: "\<exists>res. expr_subst_fuel layout (Suc d) c e n r = Some res"
    if b: "expr_height e + expr_height r < Suc d" for c e n r
  proof (cases e)
    case (EXPR_LITERAL l)
    then show ?thesis by auto
  next
    case (EXPR_IDENT s)
    then show ?thesis by auto
  next
    case (EXPR_BIN_OP op e1 e2)
    have "expr_height e1 + expr_height r < d" "expr_height e2 + expr_height r < d"
      using b EXPR_BIN_OP by simp_all
    note b = this
    obtain ok1 e1' c1 where 1: "expr_subst_fuel layout d c e1 n r = Some (ok1, e1', c1)"
      using D[of e1 r c n] b EXPR_BIN_OP by auto
    obtain ok2 e2' c2 where 2: "expr_subst_fuel layout d c1 e2 n r = Some (ok2, e2', c2)"
      using D[of e2 r c1 n] b EXPR_BIN_OP by auto
    show ?thesis using 1 2 EXPR_BIN_OP by auto
  next
    case (EXPR_IFTHENELSE p t el)
    have "expr_height p + expr_height r < d" "expr_height t + expr_height r < d"
      "expr_height el + expr_height r < d"
      using b EXPR_IFTHENELSE by simp_all
    note b = this
    obtain ok1 e1' c1 where 1: "expr_subst_fuel layout d c p n r = Some (ok1, e1', c1)"
      using D[of p r c n] b EXPR_IFTHENELSE by auto
    obtain ok2 e2' c2 where 2: "expr_subst_fuel layout d c1 t n r = Some (ok2, e2', c2)"
      using D[of t r c1 n] b EXPR_IFTHENELSE by auto
    obtain ok3 e3' c3 where 3: "expr_subst_fuel layout d c2 el n r = Some (ok3, e3', c3)"
      using D[of el r c2 n] b EXPR_IFTHENELSE by auto
    show ?thesis using 1 2 3 EXPR_IFTHENELSE by auto
  next
    case (EXPR_FUNC_TYPE ret ps)
    from node_children_below(1)[OF b[unfolded EXPR_FUNC_TYPE]]
      expr_func_type_loop_total[OF T H, of ret r ps "expr_free_vars r" c n]
    show ?thesis by (auto simp: EXPR_FUNC_TYPE expr_func_type_subst_def)
  next
    case (EXPR_LAMBDA ps body)
    from node_children_below(2)[OF b[unfolded EXPR_LAMBDA]]
      expr_lambda_loop_total[OF T H, of body r ps "expr_free_vars r" "layout ps" 0 c n]
    show ?thesis by (auto simp: EXPR_LAMBDA expr_lambda_subst_def)
  next
    case (EXPR_CALL f args)
    note cb = node_children_below(3)[OF b[unfolded EXPR_CALL]]
    obtain ok1 f' c1 where 1: "expr_subst_fuel layout d c f n r = Some (ok1, f', c1)"
      using D[of f r c n] cb by auto
    obtain ok2 args' c2 where
      2: "subst_each (expr_subst_fuel layout d) c1 args n r = Some (ok2, args', c2)"
      using subst_each_total[OF T, of args r c1 n] cb by auto
    show ?thesis using 1 2 EXPR_CALL by auto
  next
    case (EXPR_STRUCT fs)
    from node_children_below(4)[OF b[unfolded EXPR_STRUCT]]
      expr_struct_loop_total[OF T, of fs r "expr_free_vars r" c n]
    show ?thesis by (auto simp: EXPR_STRUCT expr_struct_subst_def)
  next
    case (EXPR_UNION fs)
    note cb = node_children_below(5)[OF b[unfolded EXPR_UNION]]
    obtain ok2 tys c2 where
      2: "subst_each (expr_subst_fuel layout d) c (map fst fs) n r = Some (ok2, tys, c2)"
      using subst_each_total[OF T, of "map fst fs" r c n] cb by auto
    show ?thesis using 2 EXPR_UNION by auto
  next
    case (EXPR_PACK ty as)
    from node_children_below(6)[OF b[unfolded EXPR_PACK]]
      expr_pack_loop_total[OF T, of as r "expr_free_vars r" c n]
    show ?thesis by (auto simp: EXPR_PACK expr_pack_subst_def)
  next
    case (EXPR_MEMBER rcd f)
    then show ?thesis using D[of rcd r c n] b by auto
  next
    case (EXPR_POINTER x)
    then show ?thesis using D[of x r c n] b by auto
  next
    case (EXPR_REFERENCE x)
    then show ?thesis using D[of x r c n] b by auto
  next
    case (EXPR_DEREFERENCE x)
    then show ?thesis using D[of x r c n] b by auto
  next
    case (EXPR_STATEMENT s)
    then show ?thesis using DS[of s r c n] b by auto
  qed
  have St: "\<exists>res. statement_subst_fuel layout (Suc d) c s n r = Some res"
    if b: "statement_height s + expr_height r < Suc d" for c s n r
  proof (cases s)
    case STATEMENT_EMPTY
    then show ?thesis by auto
  next
    case (STATEMENT_EXPR e)
    then show ?thesis using D[of e r c n] b by auto
  next
    case (STATEMENT_RETURN e)
    then show ?thesis using D[of e r c n] b by auto
  next
    case (STATEMENT_BLOCK bl)
    note cb = node_children_below(7)[OF b[unfolded STATEMENT_BLOCK]]
    show ?thesis using subst_each_total[OF TS, of bl r c n] cb
      by (auto simp: STATEMENT_BLOCK block_subst_def)
  next
    case (STATEMENT_DECL t nm i)
    have bt: "expr_height t + expr_height r < d"
      using b STATEMENT_DECL by simp
    obtain ok1 t' c1 where 1: "expr_subst_fuel layout d c t n r = Some (ok1, t', c1)"
      using D[of t r c n] bt by auto
    show ?thesis
    proof (cases i)
      case None
      then show ?thesis using 1 STATEMENT_DECL by auto
    next
      case (Some v)
      have "expr_height v + expr_height r < d"
        using b STATEMENT_DECL Some by simp
      then obtain ok2 v' c2 where 2: "expr_subst_fuel layout d c1 v n r = Some (ok2, v', c2)"
        using D[of v r c1 n] by auto
      show ?thesis using 1 2 STATEMENT_DECL Some by auto
    qed
  next
    case (STATEMENT_IFTHENELSE ifs els)
    note cb = node_children_below(8)[OF b[unfolded STATEMENT_IFTHENELSE]]
    obtain ok1 ifs' c1 where
      1: "ifthenelse_subst_loop (expr_subst_fuel layout d) (statement_subst_fuel layout d)
            c ifs n r = Some (ok1, ifs', c1)"
      using ifthenelse_subst_loop_total[OF T TS, of ifs r c n] cb by auto
    obtain ok2 els' c2 where
      2: "subst_each (statement_subst_fuel layout d) c1 els n r = Some (ok2, els', c2)"
      using subst_each_total[OF TS, of els r c1 n] cb by auto
    show ?thesis using 1 2 STATEMENT_IFTHENELSE by (auto simp: block_subst_def)
  qed
  show ?case unfolding total_below_def using E St by (metis option.distinct(1))
qed

lemma expr_subst_Some:
  "expr_subst_fuel layout (Suc (expr_height e + expr_height r)) c e n r
   = Some (expr_subst layout c e n r)"
proof -
  have "total_below expr_height
          (expr_subst_fuel layout (Suc (expr_height e + expr_height r)))
          (Suc (expr_height e + expr_height r))"
    using subst_fuel_total by blast
  then show ?thesis unfolding expr_subst_def total_below_def by auto
qed

lemma statement_subst_Some:
  "statement_subst_fuel layout (Suc (statement_height s + expr_height r)) c s n r
   = Some (statement_subst layout c s n r)"
proof -
  have "total_below statement_height
          (statement_subst_fuel layout (Suc (statement_height s + expr_height r)))
          (Suc (statement_height s + expr_height r))"
    using subst_fuel_total by blast
  then show ?thesis unfolding statement_subst_def total_below_def by auto
qed


subsection \<open>A deeper call returns the same result\<close>

lemma subst_each_deeper:
  assumes le: "\<forall>c x n r res. S c x n r = Some res \<longrightarrow> S' c x n r = Some res"
  shows "subst_each S c xs n r = Some (ok, xs', c') \<Longrightarrow>
         subst_each S' c xs n r = Some (ok, xs', c')"
proof (induction xs arbitrary: c xs')
  case Nil then show ?case by simp
next
  case (Cons x xs)
  from Cons.prems show ?case
  proof (cases rule: subst_each_ConsE)
    case (stop x')
    then show ?thesis using le[rule_format, OF stop(1)] by simp
  next
    case (continue x' c1 xs1)
    then show ?thesis using le[rule_format, OF continue(1)] Cons.IH[OF continue(2)] by simp
  qed
qed

lemma subst_repeat_deeper:
  assumes le: "\<forall>c x n r res. S c x n r = Some res \<longrightarrow> S' c x n r = Some res"
  shows "subst_repeat S k c e n r = Some (ok, e', c') \<Longrightarrow>
         subst_repeat S' k c e n r = Some (ok, e', c')"
proof (induction k arbitrary: c e)
  case 0 then show ?case by simp
next
  case (Suc k)
  from Suc.prems show ?case
  proof (cases rule: subst_repeat_SucE)
    case stop
    then show ?thesis using le[rule_format, OF stop(1)] by simp
  next
    case (continue e1 c1)
    then show ?thesis using le[rule_format, OF continue(1)] Suc.IH[OF continue(2)] by simp
  qed
qed

lemma expr_func_type_loop_deeper:
  assumes le: "\<forall>c x n r res. S c x n r = Some res \<longrightarrow> S' c x n r = Some res"
  shows "expr_func_type_loop S F c ret ps n r = Some (ok, (ret', ps'), c') \<Longrightarrow>
         expr_func_type_loop S' F c ret ps n r = Some (ok, (ret', ps'), c')"
proof (induction ps arbitrary: c ret ps')
  case Nil
  from Nil.prems show ?case
    by (cases rule: expr_func_type_loop_NilE) (use le in auto)
next
  case (Cons p ps)
  obtain t nm where p: "p = (t, nm)" by (cases p)
  note R = subst_repeat_deeper[of S S', OF le]
  from Cons.prems[unfolded p] show ?case
  proof (cases rule: expr_func_type_loop_ConsE)
    case (stop t')
    then show ?thesis using le[rule_format, OF stop(1)] by (simp add: p)
  next
    case (shadow t')
    then show ?thesis using le[rule_format, OF shadow(1)] by (simp add: p)
  next
    case (keep t' c1 ps1)
    then show ?thesis using le[rule_format, OF keep(1)] Cons.IH[OF keep(4)]
      by (cases nm) (simp_all add: p symbol_set_contains_def)
  next
    case (rename_stop1 t' c1 old new c2 t'')
    then show ?thesis using le[rule_format, OF rename_stop1(1)] R[OF rename_stop1(6)]
      by (simp add: p symbol_set_contains_def)
  next
    case (rename_stop2 t' c1 old new c2 t'' c3)
    then show ?thesis using le[rule_format, OF rename_stop2(1)] R[OF rename_stop2(6)] le[rule_format, OF rename_stop2(7)]
      by (simp add: p symbol_set_contains_def)
  next
    case (rename t' c1 old new c2 t'' c3 ret1 c4 ps1)
    then show ?thesis using le[rule_format, OF rename(1)] R[OF rename(6)] le[rule_format, OF rename(7)]
        Cons.IH[OF rename(8)]
      by (simp add: p symbol_set_contains_def)
  qed
qed

lemma expr_lambda_loop_deeper:
  assumes le: "\<forall>c x n r res. S c x n r = Some res \<longrightarrow> S' c x n r = Some res"
  shows "expr_lambda_loop S F b i c body ps n r = Some (ok, (body', ps'), c') \<Longrightarrow>
         expr_lambda_loop S' F b i c body ps n r = Some (ok, (body', ps'), c')"
proof (induction ps arbitrary: i c body ps')
  case Nil
  from Nil.prems show ?case
    by (cases rule: expr_lambda_loop_NilE) (use le in auto)
next
  case (Cons p ps)
  obtain t nm where p: "p = (t, nm)" by (cases p)
  note R = subst_repeat_deeper[of S S', OF le]
  from Cons.prems[unfolded p] show ?case
  proof (cases rule: expr_lambda_loop_ConsE)
    case (stop t')
    then show ?thesis using le[rule_format, OF stop(1)] by (simp add: p)
  next
    case (shadow t')
    then show ?thesis using le[rule_format, OF shadow(1)] by (simp add: p)
  next
    case (keep t' c1 ps1)
    then show ?thesis using le[rule_format, OF keep(1)] Cons.IH[OF keep(4)]
      by (simp add: p symbol_set_contains_def)
  next
    case (rename_stop1 t' c1 new c2 t'')
    then show ?thesis using le[rule_format, OF rename_stop1(1)] R[OF rename_stop1(5)]
      by (simp add: p symbol_set_contains_def)
  next
    case (rename_stop2 t' c1 new c2 t'' c3)
    then show ?thesis using le[rule_format, OF rename_stop2(1)] R[OF rename_stop2(5)] le[rule_format, OF rename_stop2(6)]
      by (simp add: p symbol_set_contains_def)
  next
    case (rename t' c1 new c2 t'' c3 body1 c4 ps1)
    then show ?thesis using le[rule_format, OF rename(1)] R[OF rename(5)] le[rule_format, OF rename(6)]
        Cons.IH[OF rename(7)]
      by (simp add: p symbol_set_contains_def)
  qed
qed

lemma expr_struct_loop_deeper:
  assumes le: "\<forall>c x n r res. S c x n r = Some res \<longrightarrow> S' c x n r = Some res"
  shows "expr_struct_loop S F c fs n r = Some (ok, fs', c') \<Longrightarrow>
         expr_struct_loop S' F c fs n r = Some (ok, fs', c')"
proof (induction fs arbitrary: c fs')
  case Nil then show ?case by simp
next
  case (Cons p fs)
  obtain t f where p: "p = (t, f)" by (cases p)
  from Cons.prems[unfolded p] show ?case
  proof (cases rule: expr_struct_loop_ConsE)
    case (continue t' c1 fs1)
    then show ?thesis using le[rule_format, OF continue(1)] Cons.IH[OF continue(4)]
      by (simp add: p symbol_set_contains_def)
  qed (use le in \<open>auto simp: p symbol_set_contains_def\<close>)
qed

lemma expr_pack_loop_deeper:
  assumes le: "\<forall>c x n r res. S c x n r = Some res \<longrightarrow> S' c x n r = Some res"
  shows "expr_pack_loop S F c as n r = Some (ok, as', c') \<Longrightarrow>
         expr_pack_loop S' F c as n r = Some (ok, as', c')"
proof (induction as arbitrary: c as')
  case Nil then show ?case by simp
next
  case (Cons p as)
  obtain f a where p: "p = (f, a)" by (cases p)
  from Cons.prems[unfolded p] show ?case
  proof (cases rule: expr_pack_loop_ConsE)
    case (continue a' c1 as1)
    then show ?thesis using le[rule_format, OF continue(1)] Cons.IH[OF continue(4)]
      by (simp add: p symbol_set_contains_def)
  qed (use le in \<open>auto simp: p symbol_set_contains_def\<close>)
qed

lemma ifthenelse_subst_loop_deeper:
  assumes le: "\<forall>c x n r res. S c x n r = Some res \<longrightarrow> S' c x n r = Some res"
    and les: "\<forall>c x n r res. SS c x n r = Some res \<longrightarrow> SS' c x n r = Some res"
  shows "ifthenelse_subst_loop S SS c ifs n r = Some (ok, ifs', c') \<Longrightarrow>
         ifthenelse_subst_loop S' SS' c ifs n r = Some (ok, ifs', c')"
proof (induction ifs arbitrary: c ifs')
  case Nil then show ?case by simp
next
  case (Cons p ifs)
  obtain e b where p: "p = (e, b)" by (cases p)
  note B = subst_each_deeper[of SS SS', OF les]
  from Cons.prems[unfolded p] show ?case
  proof (cases rule: ifthenelse_subst_loop_ConsE)
    case (stop1 e')
    then show ?thesis using le[rule_format, OF stop1(1)] by (simp add: p)
  next
    case (stop2 e' c1 b')
    then show ?thesis using le[rule_format, OF stop2(1)] B[OF stop2(2)] by (simp add: p block_subst_def)
  next
    case (continue e' c1 b' c2 ifs1)
    then show ?thesis using le[rule_format, OF continue(1)] B[OF continue(2)] Cons.IH[OF continue(3)]
      by (simp add: p block_subst_def)
  qed
qed

lemma subst_fuel_Suc:
  "(\<forall>c e n r res. expr_subst_fuel layout d c e n r = Some res
      \<longrightarrow> expr_subst_fuel layout (Suc d) c e n r = Some res)
   \<and> (\<forall>c s n r res. statement_subst_fuel layout d c s n r = Some res
      \<longrightarrow> statement_subst_fuel layout (Suc d) c s n r = Some res)"
proof (induction d)
  case 0
  show ?case by simp
next
  case (Suc d)
  let ?S = "expr_subst_fuel layout d" and ?SS = "statement_subst_fuel layout d"
  define T where "T = expr_subst_fuel layout (Suc d)"
  define TS where "TS = statement_subst_fuel layout (Suc d)"
  note unf = expr_subst_fuel.simps(2)[of layout "Suc d", folded T_def TS_def]
  note unfS = statement_subst_fuel.simps(2)[of layout "Suc d", folded T_def TS_def]
  from Suc have le: "\<forall>c x n r res. ?S c x n r = Some res \<longrightarrow> T c x n r = Some res"
    and les: "\<forall>c x n r res. ?SS c x n r = Some res \<longrightarrow> TS c x n r = Some res"
    unfolding T_def TS_def by blast+
  note each = subst_each_deeper[of ?S T, OF le]
    and eachS = subst_each_deeper[of ?SS TS, OF les]
  have E: "expr_subst_fuel layout (Suc (Suc d)) c e n r = Some (ok, e', c')"
    if res: "expr_subst_fuel layout (Suc d) c e n r = Some (ok, e', c')" for c e n r ok e' c'
  proof (cases e)
    case (EXPR_FUNC_TYPE ret ps)
    from res[unfolded EXPR_FUNC_TYPE] obtain ret' ps' where
      l: "expr_func_type_loop ?S (expr_free_vars r) c ret ps n r = Some (ok, (ret', ps'), c')"
      and e': "e' = EXPR_FUNC_TYPE ret' ps'"
      by (auto simp: expr_func_type_subst_def bind_eq_Some_conv)
    show ?thesis using expr_func_type_loop_deeper[of ?S T, OF le l] e'
      unfolding unf EXPR_FUNC_TYPE by (simp add: expr_func_type_subst_def)
  next
    case (EXPR_LAMBDA ps body)
    from res[unfolded EXPR_LAMBDA] obtain body' ps' where
      l: "expr_lambda_loop ?S (expr_free_vars r) (layout ps) 0 c body ps n r
          = Some (ok, (body', ps'), c')"
      and e': "e' = EXPR_LAMBDA ps' body'"
      by (auto simp: expr_lambda_subst_def bind_eq_Some_conv)
    show ?thesis using expr_lambda_loop_deeper[of ?S T, OF le l] e'
      unfolding unf EXPR_LAMBDA by (simp add: expr_lambda_subst_def)
  next
    case (EXPR_STRUCT fs)
    from res[unfolded EXPR_STRUCT] obtain fs' where
      l: "expr_struct_loop ?S (expr_free_vars r) c fs n r = Some (ok, fs', c')"
      and e': "e' = EXPR_STRUCT fs'"
      by (auto simp: expr_struct_subst_def bind_eq_Some_conv)
    show ?thesis using expr_struct_loop_deeper[of ?S T, OF le l] e'
      unfolding unf EXPR_STRUCT by (simp add: expr_struct_subst_def)
  next
    case (EXPR_PACK ty as)
    from res[unfolded EXPR_PACK] obtain as' where
      l: "expr_pack_loop ?S (expr_free_vars r) c as n r = Some (ok, as', c')"
      and e': "e' = EXPR_PACK ty as'"
      by (auto simp: expr_pack_subst_def bind_eq_Some_conv)
    show ?thesis using expr_pack_loop_deeper[of ?S T, OF le l] e'
      unfolding unf EXPR_PACK by (simp add: expr_pack_subst_def)
  next
    case (EXPR_CALL f args)
    have "\<exists>f' args'. subst_each ?S c (f # args) n r = Some (ok, f' # args', c')
          \<and> e' = EXPR_CALL f' args'"
      using res[unfolded EXPR_CALL] by (auto split: Option.bind_splits if_splits)
    then obtain f' args' where
      l: "subst_each ?S c (f # args) n r = Some (ok, f' # args', c')"
      and e': "e' = EXPR_CALL f' args'" by blast
    show ?thesis using each[OF l] e' unfolding unf EXPR_CALL
      by (auto split: Option.bind_splits if_splits)
  next
    case (EXPR_UNION fs)
    from res[unfolded EXPR_UNION] obtain tys where
      l: "subst_each ?S c (map fst fs) n r = Some (ok, tys, c')"
      and e': "e' = EXPR_UNION (zip tys (map snd fs))"
      by (auto simp: bind_eq_Some_conv)
    show ?thesis using each[OF l] e' unfolding unf EXPR_UNION by simp
  qed (insert res le les, unfold unf, auto split: Option.bind_splits if_splits)
  have St: "statement_subst_fuel layout (Suc (Suc d)) c s n r = Some (ok, s', c')"
    if res: "statement_subst_fuel layout (Suc d) c s n r = Some (ok, s', c')"
    for c s n r ok s' c'
  proof (cases s)
    case (STATEMENT_BLOCK bl)
    from res[unfolded STATEMENT_BLOCK] obtain bl' where
      l: "subst_each ?SS c bl n r = Some (ok, bl', c')" and s': "s' = STATEMENT_BLOCK bl'"
      by (auto simp: bind_eq_Some_conv block_subst_def)
    show ?thesis using eachS[OF l] s' unfolding unfS STATEMENT_BLOCK
      by (simp add: block_subst_def)
  next
    case (STATEMENT_DECL t nm i)
    show ?thesis using res le unfolding unfS STATEMENT_DECL
      by (cases i) (auto split: Option.bind_splits if_splits)
  next
    case (STATEMENT_IFTHENELSE ifs els)
    from res[unfolded STATEMENT_IFTHENELSE] obtain ok1 ifs' c1 where
      l: "ifthenelse_subst_loop ?S ?SS c ifs n r = Some (ok1, ifs', c1)"
      by (auto simp: bind_eq_Some_conv)
    note l' = ifthenelse_subst_loop_deeper[of ?S T ?SS TS, OF le les l]
    show ?thesis
    proof (cases ok1)
      case False
      then show ?thesis using res[unfolded STATEMENT_IFTHENELSE] l l'
        unfolding unfS STATEMENT_IFTHENELSE by simp
    next
      case True
      then obtain els' where
        l2: "subst_each ?SS c1 els n r = Some (ok, els', c')"
        and s': "s' = STATEMENT_IFTHENELSE ifs' els'"
        using res[unfolded STATEMENT_IFTHENELSE] l
        by (auto simp: bind_eq_Some_conv block_subst_def)
      show ?thesis using l' True eachS[OF l2] s'
        unfolding unfS STATEMENT_IFTHENELSE by (simp add: block_subst_def)
    qed
  qed (insert res le les, unfold unfS, auto split: Option.bind_splits if_splits)
  show ?case using E St by (metis prod_cases3)
qed

lemma expr_subst_fuel_deeper:
  "expr_subst_fuel layout d c e n r = Some res \<Longrightarrow>
   expr_subst_fuel layout (d + k) c e n r = Some res"
proof (induction k)
  case 0
  then show ?case by simp
next
  case (Suc k)
  then have "expr_subst_fuel layout (d + k) c e n r = Some res" by blast
  with subst_fuel_Suc[of layout "d + k"]
  have "expr_subst_fuel layout (Suc (d + k)) c e n r = Some res" by blast
  then show ?case by (simp only: add_Suc_right)
qed

text \<open>
  Any depth above the two heights gives the result of \<open>expr_subst\<close>: the depth only
  cuts a computation off and never changes what it returns.
\<close>

lemma expr_subst_fuel_enough:
  assumes "expr_height e + expr_height r < d"
  shows "expr_subst_fuel layout d c e n r = Some (expr_subst layout c e n r)"
proof -
  from assms obtain k where "d = Suc (expr_height e + expr_height r) + k"
    using less_iff_Suc_add by auto
  then show ?thesis using expr_subst_fuel_deeper[OF expr_subst_Some] by simp
qed


section \<open>Substitution at identifiers, records and blocks\<close>

lemma expr_subst_eq:
  "expr_subst layout c e n r = res \<longleftrightarrow>
   expr_subst_fuel layout (Suc (expr_height e + expr_height r)) c e n r = Some res"
  unfolding expr_subst_Some by auto

text \<open>
  C2.  The identifier case of \<open>expr_subst\<close> never compares the identifier with the target
  name: the identifier \<open>a\<close> is replaced when \<open>x\<close> is substituted, although \<open>x\<close> is not
  free in it, and the result is not equal to the term before.  The claim says the term is
  left unchanged.
\<close>

theorem expr_subst_ident_other_name:
  "''x'' \<notin> expr_free_vars (EXPR_IDENT ''a'')
   \<and> expr_subst layout c (EXPR_IDENT ''a'') ''x'' (EXPR_LITERAL (LIT_INTEGRAL 42))
       = (True, EXPR_LITERAL (LIT_INTEGRAL 42), c)
   \<and> \<not> expr_equal (EXPR_LITERAL (LIT_INTEGRAL 42)) (EXPR_IDENT ''a'')"
  by (simp add: expr_subst_def symbol_set_defs)

theorem expr_subst_ident_other_name_witness:
  "fst (snd (expr_subst length \<lparr>interns = [''a'', ''x'']\<rparr> (EXPR_IDENT ''a'') ''x''
      (EXPR_LITERAL (LIT_INTEGRAL 42)))) = EXPR_LITERAL (LIT_INTEGRAL 42)"
  using expr_subst_ident_other_name[of length "\<lparr>interns = [''a'', ''x'']\<rparr>"] by simp

lemma expr_struct_loop_names:
  "expr_struct_loop S F c fs n r = Some (ok, fs', c') \<Longrightarrow> map snd fs' = map snd fs"
proof (induction fs arbitrary: c fs')
  case Nil then show ?case by simp
next
  case (Cons p fs)
  obtain t f where p: "p = (t, f)" by (cases p)
  from Cons.prems[unfolded p] show ?case
    by (cases rule: expr_struct_loop_ConsE) (auto simp: p dest: Cons.IH)
qed

lemma expr_pack_loop_names:
  "expr_pack_loop S F c as n r = Some (ok, as', c') \<Longrightarrow> map fst as' = map fst as"
proof (induction as arbitrary: c as')
  case Nil then show ?case by simp
next
  case (Cons p as)
  obtain f a where p: "p = (f, a)" by (cases p)
  from Cons.prems[unfolded p] show ?case
    by (cases rule: expr_pack_loop_ConsE) (auto simp: p dest: Cons.IH)
qed

lemma expr_struct_loop_refuses:
  "expr_struct_loop S F c fs n r = Some (ok, fs', c') \<Longrightarrow> i < length fs \<Longrightarrow>
   snd (fs ! i) \<in> F \<Longrightarrow> n \<notin> set (map snd (take (Suc i) fs)) \<Longrightarrow> \<not> ok"
proof (induction fs arbitrary: c fs' i)
  case Nil then show ?case by simp
next
  case (Cons p fs)
  obtain t f where p: "p = (t, f)" by (cases p)
  from Cons.prems(1)[unfolded p] show ?case
  proof (cases rule: expr_struct_loop_ConsE)
    case (shadow t')
    then show ?thesis using Cons.prems(4) by (simp add: p)
  next
    case (continue t' c1 fs1)
    then obtain j where i: "i = Suc j" using Cons.prems(3) by (cases i) (auto simp: p)
    show ?thesis using Cons.IH[OF continue(4), of j] Cons.prems(2,3,4) by (simp add: i)
  qed simp_all
qed

lemma expr_pack_loop_refuses:
  "expr_pack_loop S F c as n r = Some (ok, as', c') \<Longrightarrow> i < length as \<Longrightarrow>
   fst (as ! i) \<in> F \<Longrightarrow> n \<notin> set (map fst (take (Suc i) as)) \<Longrightarrow> \<not> ok"
proof (induction as arbitrary: c as' i)
  case Nil then show ?case by simp
next
  case (Cons p as)
  obtain f a where p: "p = (f, a)" by (cases p)
  from Cons.prems(1)[unfolded p] show ?case
  proof (cases rule: expr_pack_loop_ConsE)
    case (shadow a')
    then show ?thesis using Cons.prems(4) by (simp add: p)
  next
    case (continue a' c1 as1)
    then obtain j where i: "i = Suc j" using Cons.prems(3) by (cases i) (auto simp: p)
    show ?thesis using Cons.IH[OF continue(4), of j] Cons.prems(2,3,4) by (simp add: i)
  qed simp_all
qed

lemma expr_subst_STRUCT:
  obtains ok fs' c' where
    "expr_subst layout c (EXPR_STRUCT fs) n r = (ok, EXPR_STRUCT fs', c')"
    "expr_struct_loop
       (expr_subst_fuel layout (expr_height (EXPR_STRUCT fs) + expr_height r))
       (expr_free_vars r) c fs n r = Some (ok, fs', c')"
proof -
  obtain ok e' c' where res: "expr_subst layout c (EXPR_STRUCT fs) n r = (ok, e', c')"
    by (cases "expr_subst layout c (EXPR_STRUCT fs) n r")
  from res[unfolded expr_subst_eq] that show ?thesis
    by (auto simp: expr_struct_subst_def bind_eq_Some_conv res simp del: expr_height.simps)
qed

lemma expr_subst_PACK:
  obtains ok as' c' where
    "expr_subst layout c (EXPR_PACK ty as) n r = (ok, EXPR_PACK ty as', c')"
    "expr_pack_loop
       (expr_subst_fuel layout (expr_height (EXPR_PACK ty as) + expr_height r))
       (expr_free_vars r) c as n r = Some (ok, as', c')"
proof -
  obtain ok e' c' where res: "expr_subst layout c (EXPR_PACK ty as) n r = (ok, e', c')"
    by (cases "expr_subst layout c (EXPR_PACK ty as) n r")
  from res[unfolded expr_subst_eq] that show ?thesis
    by (auto simp: expr_pack_subst_def bind_eq_Some_conv res simp del: expr_height.simps)
qed

text \<open>
  C5 (counterexample).  Substituting \<open>y\<close> for \<open>x\<close> in \<open>struct { u8 x; u8 y; }\<close> and in
  \<open>(t){ .x = 1, .y = 2 }\<close> returns true: the loop over the fields returns at the field
  \<open>x\<close>, which is named as the target, and never comes to the field \<open>y\<close>, which is not
  the target and is free in the replacement.
\<close>

theorem record_subst_after_shadow_counterexample:
  "expr_subst length \<lparr>interns = [''t'', ''x'', ''y'']\<rparr>
     (EXPR_STRUCT [(EXPR_LITERAL LIT_U8, ''x''), (EXPR_LITERAL LIT_U8, ''y'')])
     ''x'' (EXPR_IDENT ''y'')
   = (True, EXPR_STRUCT [(EXPR_LITERAL LIT_U8, ''x''), (EXPR_LITERAL LIT_U8, ''y'')],
      \<lparr>interns = [''t'', ''x'', ''y'']\<rparr>)
   \<and> expr_subst length \<lparr>interns = [''t'', ''x'', ''y'']\<rparr>
       (EXPR_PACK (EXPR_IDENT ''t'')
          [(''x'', EXPR_LITERAL (LIT_INTEGRAL 1)), (''y'', EXPR_LITERAL (LIT_INTEGRAL 2))])
       ''x'' (EXPR_IDENT ''y'')
     = (True,
        EXPR_PACK (EXPR_IDENT ''t'')
          [(''x'', EXPR_LITERAL (LIT_INTEGRAL 1)), (''y'', EXPR_LITERAL (LIT_INTEGRAL 2))],
        \<lparr>interns = [''t'', ''x'', ''y'']\<rparr>)
   \<and> ''y'' \<noteq> ''x'' \<and> ''y'' \<in> expr_free_vars (EXPR_IDENT ''y'')"
  by (simp add: expr_subst_def expr_struct_subst_def expr_pack_subst_def height_max_def
      symbol_set_defs)

text \<open>
  C5 (amended).  Substitution into a struct or a pack never changes a field name.  When a
  field name is free in the replacement, and neither that field nor a field before it is
  named as the target, the substitution returns false.
\<close>

theorem record_subst_refuses_capture:
  "(\<exists>fs'. fst (snd (expr_subst layout c (EXPR_STRUCT fs) n r)) = EXPR_STRUCT fs'
         \<and> map snd fs' = map snd fs)
   \<and> (i < length fs \<and> snd (fs ! i) \<in> expr_free_vars r
        \<and> n \<notin> set (map snd (take (Suc i) fs))
      \<longrightarrow> \<not> fst (expr_subst layout c (EXPR_STRUCT fs) n r))
   \<and> (\<exists>as'. fst (snd (expr_subst layout c (EXPR_PACK ty as) n r)) = EXPR_PACK ty as'
         \<and> map fst as' = map fst as)
   \<and> (j < length as \<and> fst (as ! j) \<in> expr_free_vars r
        \<and> n \<notin> set (map fst (take (Suc j) as))
      \<longrightarrow> \<not> fst (expr_subst layout c (EXPR_PACK ty as) n r))"
proof -
  obtain ok fs' c' where
    s: "expr_subst layout c (EXPR_STRUCT fs) n r = (ok, EXPR_STRUCT fs', c')"
    and sl: "expr_struct_loop
       (expr_subst_fuel layout (expr_height (EXPR_STRUCT fs) + expr_height r))
       (expr_free_vars r) c fs n r = Some (ok, fs', c')"
    by (rule expr_subst_STRUCT)
  obtain ok2 as' c2 where
    p: "expr_subst layout c (EXPR_PACK ty as) n r = (ok2, EXPR_PACK ty as', c2)"
    and pl: "expr_pack_loop
       (expr_subst_fuel layout (expr_height (EXPR_PACK ty as) + expr_height r))
       (expr_free_vars r) c as n r = Some (ok2, as', c2)"
    by (rule expr_subst_PACK)
  show ?thesis
    unfolding s p
    using expr_struct_loop_names[OF sl] expr_struct_loop_refuses[OF sl, of i]
      expr_pack_loop_names[OF pl] expr_pack_loop_refuses[OF pl, of j]
    by simp
qed

theorem record_subst_refuses_capture_witness:
  "(1::nat) < length [(EXPR_LITERAL LIT_U8, ''a''), (EXPR_IDENT ''t'', ''y'')]
   \<and> snd ([(EXPR_LITERAL LIT_U8, ''a''), (EXPR_IDENT ''t'', ''y'')] ! 1)
       \<in> expr_free_vars (EXPR_IDENT ''y'')
   \<and> ''x'' \<notin> set (map snd (take (Suc 1) [(EXPR_LITERAL LIT_U8, ''a''), (EXPR_IDENT ''t'', ''y'')]))
   \<and> \<not> fst (expr_subst length \<lparr>interns = [''a'', ''t'', ''x'', ''y'']\<rparr>
        (EXPR_STRUCT [(EXPR_LITERAL LIT_U8, ''a''), (EXPR_IDENT ''t'', ''y'')]) ''x''
        (EXPR_IDENT ''y''))
   \<and> (0::nat) < length [(''y'', EXPR_LITERAL (LIT_INTEGRAL 1))]
   \<and> fst ([(''y'', EXPR_LITERAL (LIT_INTEGRAL 1))] ! 0) \<in> expr_free_vars (EXPR_IDENT ''y'')
   \<and> ''x'' \<notin> set (map fst (take (Suc 0) [(''y'', EXPR_LITERAL (LIT_INTEGRAL 1))]))
   \<and> \<not> fst (expr_subst length \<lparr>interns = [''a'', ''t'', ''x'', ''y'']\<rparr>
        (EXPR_PACK (EXPR_IDENT ''t'') [(''y'', EXPR_LITERAL (LIT_INTEGRAL 1))]) ''x''
        (EXPR_IDENT ''y''))"
  using record_subst_refuses_capture
    [where layout = length and c = "\<lparr>interns = [''a'', ''t'', ''x'', ''y'']\<rparr>"
      and fs = "[(EXPR_LITERAL LIT_U8, ''a''), (EXPR_IDENT ''t'', ''y'')]" and n = "''x''"
      and r = "EXPR_IDENT ''y''" and ty = "EXPR_IDENT ''t''"
      and as = "[(''y'', EXPR_LITERAL (LIT_INTEGRAL 1))]" and i = 1 and j = 0]
  by (simp add: symbol_set_defs)

text \<open>
  C6.  \<open>block_subst\<close> substitutes into every statement of a block.  In
  \<open>{ u8 x; x; }\<close> the statement after the declaration of \<open>x\<close> is rewritten when \<open>x\<close>
  is substituted, and in \<open>{ u8 y; z; }\<close> the declaration of \<open>y\<close> keeps its name when
  the replacement is \<open>y\<close>.  The claim says that the substitution stops at the
  declaration in the first block and renames the declaration in the second.
\<close>

theorem block_subst_passes_declaration:
  "statement_subst layout c
     (STATEMENT_BLOCK
        [STATEMENT_DECL (EXPR_LITERAL LIT_U8) ''x'' None, STATEMENT_EXPR (EXPR_IDENT ''x'')])
     ''x'' (EXPR_LITERAL (LIT_INTEGRAL 42))
   = (True,
      STATEMENT_BLOCK
        [STATEMENT_DECL (EXPR_LITERAL LIT_U8) ''x'' None,
         STATEMENT_EXPR (EXPR_LITERAL (LIT_INTEGRAL 42))],
      c)
   \<and> statement_subst layout c
     (STATEMENT_BLOCK
        [STATEMENT_DECL (EXPR_LITERAL LIT_U8) ''y'' None, STATEMENT_EXPR (EXPR_IDENT ''z'')])
     ''z'' (EXPR_IDENT ''y'')
   = (True,
      STATEMENT_BLOCK
        [STATEMENT_DECL (EXPR_LITERAL LIT_U8) ''y'' None, STATEMENT_EXPR (EXPR_IDENT ''y'')],
      c)"
  by (simp add: statement_subst_def height_max_def block_subst_def)

theorem block_subst_passes_declaration_witness:
  "fst (snd (statement_subst length \<lparr>interns = [''x'', ''y'', ''z'']\<rparr>
     (STATEMENT_BLOCK
        [STATEMENT_DECL (EXPR_LITERAL LIT_U8) ''x'' None, STATEMENT_EXPR (EXPR_IDENT ''x'')])
     ''x'' (EXPR_LITERAL (LIT_INTEGRAL 42))))
   = STATEMENT_BLOCK
        [STATEMENT_DECL (EXPR_LITERAL LIT_U8) ''x'' None,
         STATEMENT_EXPR (EXPR_LITERAL (LIT_INTEGRAL 42))]"
  using block_subst_passes_declaration[of length "\<lparr>interns = [''x'', ''y'', ''z'']\<rparr>"]
  by simp

lemma union_all_eq: "union_all temps fv = fv \<union> \<Union> (set temps)"
  unfolding union_all_def
  by (induction temps arbitrary: fv) (auto simp: symbol_set_defs)

lemma union_all_superset: "fv \<subseteq> union_all temps fv"
  by (simp add: union_all_eq)

text \<open>
  C9.  Substitution into a pack leaves the type of the pack as it is, and the field names
  too; only the assigned expressions are rewritten.  The free variables of a pack include
  those of its type.
\<close>

theorem pack_subst_keeps_type:
  "(\<exists>ok as' c'. expr_subst layout c (EXPR_PACK ty as) n r = (ok, EXPR_PACK ty as', c')
       \<and> map fst as' = map fst as)
   \<and> expr_free_vars ty \<subseteq> expr_free_vars (EXPR_PACK ty as)"
proof -
  obtain ok2 as' c2 where
    p: "expr_subst layout c (EXPR_PACK ty as) n r = (ok2, EXPR_PACK ty as', c2)"
    and pl: "expr_pack_loop
       (expr_subst_fuel layout (expr_height (EXPR_PACK ty as) + expr_height r))
       (expr_free_vars r) c as n r = Some (ok2, as', c2)"
    by (rule expr_subst_PACK)
  show ?thesis using p expr_pack_loop_names[OF pl] union_all_superset by simp
qed

theorem pack_subst_keeps_type_witness:
  "\<exists>ok as' c'.
     expr_subst length \<lparr>interns = [''f'', ''t'', ''x'']\<rparr>
       (EXPR_PACK (EXPR_IDENT ''x'') [(''f'', EXPR_IDENT ''x'')]) ''x''
       (EXPR_LITERAL (LIT_INTEGRAL 7))
     = (ok, EXPR_PACK (EXPR_IDENT ''x'') as', c')"
  using pack_subst_keeps_type
    [where layout = length and c = "\<lparr>interns = [''f'', ''t'', ''x'']\<rparr>"
      and ty = "EXPR_IDENT ''x''" and as = "[(''f'', EXPR_IDENT ''x'')]" and n = "''x''"
      and r = "EXPR_LITERAL (LIT_INTEGRAL 7)"]
  by blast


section \<open>The registry only grows, and fresh symbols are fresh\<close>

lemma longest_fold_ge:
  "a \<le> fold (\<lambda>s n. max (length s) n) xs a
   \<and> (\<forall>s\<in>set xs. length s \<le> fold (\<lambda>s n. max (length s) n) xs a)"
proof (induction xs arbitrary: a)
  case Nil then show ?case by simp
next
  case (Cons x xs)
  from Cons.IH[of "max (length x) a"] show ?case by auto
qed

lemma longest_ge: "s \<in> set xs \<Longrightarrow> length s \<le> longest xs"
  unfolding longest_def using longest_fold_ge by blast

lemma symbol_gensym_fresh:
  assumes "symbol_gensym c base = (new, c2)"
  shows "new \<notin> set (interns c)" and "set (interns c2) = insert new (set (interns c))"
proof -
  from assms have new: "new = base @ replicate (Suc (longest (interns c))) (CHR ''_'')"
    and c2: "c2 = c\<lparr>interns := new # interns c\<rparr>"
    by (auto simp: symbol_gensym_def Let_def)
  have "longest (interns c) < length new" by (simp add: new)
  then show "new \<notin> set (interns c)" using longest_ge[of new "interns c"] by auto
  show "set (interns c2) = insert new (set (interns c))" by (simp add: c2)
qed

lemma subst_each_interns:
  assumes "interns_mono S"
  shows "subst_each S c xs n r = Some (ok, xs', c') \<Longrightarrow> set (interns c) \<subseteq> set (interns c')"
proof (induction xs arbitrary: c xs')
  case Nil then show ?case by simp
next
  case (Cons x xs)
  from Cons.prems(1) show ?case
  proof (cases rule: subst_each_ConsE)
    case (stop x')
    then show ?thesis using interns_monoD[OF assms stop(1)] by simp
  next
    case (continue x' c1 xs')
    then show ?thesis using interns_monoD[OF assms continue(1)] Cons.IH[OF continue(2)] by blast
  qed
qed

lemma subst_repeat_interns:
  assumes "interns_mono S"
  shows "subst_repeat S k c e n r = Some (ok, e', c') \<Longrightarrow> set (interns c) \<subseteq> set (interns c')"
proof (induction k arbitrary: c e)
  case 0 then show ?case by simp
next
  case (Suc k)
  from Suc.prems show ?case
  proof (cases rule: subst_repeat_SucE)
    case stop
    then show ?thesis using interns_monoD[OF assms stop(1)] by simp
  next
    case (continue e1 c1)
    then show ?thesis using interns_monoD[OF assms continue(1)] Suc.IH[OF continue(2)] by blast
  qed
qed

lemma expr_func_type_loop_interns:
  assumes S: "interns_mono S"
  shows "expr_func_type_loop S F c ret ps n r = Some (ok, (ret', ps'), c') \<Longrightarrow>
         set (interns c) \<subseteq> set (interns c')"
proof (induction ps arbitrary: c ret ps')
  case Nil
  from Nil.prems(1) show ?case
    by (cases rule: expr_func_type_loop_NilE) (auto dest!: interns_monoD[OF S])
next
  case (Cons p ps)
  obtain t nm where p: "p = (t, nm)" by (cases p)
  note D = interns_monoD[OF S] and R = subst_repeat_interns[OF S]
    and G = symbol_gensym_fresh(2)
  from Cons.prems(1)[unfolded p] show ?case
  proof (cases rule: expr_func_type_loop_ConsE)
    case (stop t')
    then show ?thesis using D[OF stop(1)] by simp
  next
    case (shadow t')
    then show ?thesis using D[OF shadow(1)] by simp
  next
    case (keep t' c1 ps1)
    then show ?thesis using D[OF keep(1)] Cons.IH[OF keep(4)] by blast
  next
    case (rename_stop1 t' c1 old new c2 t'')
    then show ?thesis using D[OF rename_stop1(1)] G[OF rename_stop1(5)] R[OF rename_stop1(6)]
      by blast
  next
    case (rename_stop2 t' c1 old new c2 t'' c3)
    then show ?thesis using D[OF rename_stop2(1)] G[OF rename_stop2(5)] R[OF rename_stop2(6)]
        D[OF rename_stop2(7)] by blast
  next
    case (rename t' c1 old new c2 t'' c3 ret1 c4 ps1)
    then show ?thesis using D[OF rename(1)] G[OF rename(5)] R[OF rename(6)]
        D[OF rename(7)] Cons.IH[OF rename(8)] by blast
  qed
qed

lemma expr_lambda_loop_interns:
  assumes S: "interns_mono S"
  shows "expr_lambda_loop S F b i c body ps n r = Some (ok, (body', ps'), c') \<Longrightarrow>
         set (interns c) \<subseteq> set (interns c')"
proof (induction ps arbitrary: i c body ps')
  case Nil
  from Nil.prems(1) show ?case
    by (cases rule: expr_lambda_loop_NilE) (auto dest!: interns_monoD[OF S])
next
  case (Cons p ps)
  obtain t nm where p: "p = (t, nm)" by (cases p)
  note D = interns_monoD[OF S] and R = subst_repeat_interns[OF S]
    and G = symbol_gensym_fresh(2)
  from Cons.prems(1)[unfolded p] show ?case
  proof (cases rule: expr_lambda_loop_ConsE)
    case (stop t')
    then show ?thesis using D[OF stop(1)] by simp
  next
    case (shadow t')
    then show ?thesis using D[OF shadow(1)] by simp
  next
    case (keep t' c1 ps1)
    then show ?thesis using D[OF keep(1)] Cons.IH[OF keep(4)] by blast
  next
    case (rename_stop1 t' c1 new c2 t'')
    then show ?thesis using D[OF rename_stop1(1)] G[OF rename_stop1(4)] R[OF rename_stop1(5)]
      by blast
  next
    case (rename_stop2 t' c1 new c2 t'' c3)
    then show ?thesis using D[OF rename_stop2(1)] G[OF rename_stop2(4)] R[OF rename_stop2(5)]
        D[OF rename_stop2(6)] by blast
  next
    case (rename t' c1 new c2 t'' c3 body1 c4 ps1)
    then show ?thesis using D[OF rename(1)] G[OF rename(4)] R[OF rename(5)]
        D[OF rename(6)] Cons.IH[OF rename(7)] by blast
  qed
qed

lemma expr_struct_loop_interns:
  assumes S: "interns_mono S"
  shows "expr_struct_loop S F c fs n r = Some (ok, fs', c') \<Longrightarrow>
         set (interns c) \<subseteq> set (interns c')"
proof (induction fs arbitrary: c fs')
  case Nil then show ?case by simp
next
  case (Cons p fs)
  obtain t f where p: "p = (t, f)" by (cases p)
  from Cons.prems(1)[unfolded p] show ?case
  proof (cases rule: expr_struct_loop_ConsE)
    case (continue t' c1 fs1)
    then show ?thesis using interns_monoD[OF S continue(1)] Cons.IH[OF continue(4)] by blast
  qed (auto dest!: interns_monoD[OF S])
qed

lemma expr_pack_loop_interns:
  assumes S: "interns_mono S"
  shows "expr_pack_loop S F c as n r = Some (ok, as', c') \<Longrightarrow>
         set (interns c) \<subseteq> set (interns c')"
proof (induction as arbitrary: c as')
  case Nil then show ?case by simp
next
  case (Cons p as)
  obtain f a where p: "p = (f, a)" by (cases p)
  from Cons.prems(1)[unfolded p] show ?case
  proof (cases rule: expr_pack_loop_ConsE)
    case (continue a' c1 as1)
    then show ?thesis using interns_monoD[OF S continue(1)] Cons.IH[OF continue(4)] by blast
  qed (auto dest!: interns_monoD[OF S])
qed

lemma ifthenelse_subst_loop_interns:
  assumes S: "interns_mono S" and SS: "interns_mono SS"
  shows "ifthenelse_subst_loop S SS c ifs n r = Some (ok, ifs', c') \<Longrightarrow>
         set (interns c) \<subseteq> set (interns c')"
proof (induction ifs arbitrary: c ifs')
  case Nil then show ?case by simp
next
  case (Cons p ifs)
  obtain e b where p: "p = (e, b)" by (cases p)
  from Cons.prems(1)[unfolded p] show ?case
  proof (cases rule: ifthenelse_subst_loop_ConsE)
    case (stop1 e')
    then show ?thesis using interns_monoD[OF S stop1(1)] by simp
  next
    case (stop2 e' c1 b')
    then show ?thesis using interns_monoD[OF S stop2(1)] subst_each_interns[OF SS stop2(2)]
      by blast
  next
    case (continue e' c1 b' c2 ifs1)
    then show ?thesis using interns_monoD[OF S continue(1)] subst_each_interns[OF SS continue(2)]
        Cons.IH[OF continue(3)] by blast
  qed
qed

lemma subst_fuel_interns:
  "interns_mono (expr_subst_fuel layout d) \<and> interns_mono (statement_subst_fuel layout d)"
proof (induction d)
  case 0
  show ?case by (simp add: interns_mono_def)
next
  case (Suc d)
  then have S: "interns_mono (expr_subst_fuel layout d)"
    and SS: "interns_mono (statement_subst_fuel layout d)" by simp_all
  note D = interns_monoD[OF S] and DS = interns_monoD[OF SS]
    and L = subst_each_interns[OF S] and LS = subst_each_interns[OF SS]
  have E: "set (interns c) \<subseteq> set (interns c')"
    if res: "expr_subst_fuel layout (Suc d) c e n r = Some (ok, e', c')" for c e n r ok e' c'
  proof (cases e)
    case (EXPR_BIN_OP op e1 e2)
    then show ?thesis using res
      by (auto simp: bind_eq_Some_conv split: if_splits dest!: D)
  next
    case (EXPR_IFTHENELSE p t el)
    then show ?thesis using res
      by (auto simp: bind_eq_Some_conv split: if_splits dest!: D)
  next
    case (EXPR_FUNC_TYPE ret ps)
    then show ?thesis using res
      by (auto simp: expr_func_type_subst_def bind_eq_Some_conv
          dest!: expr_func_type_loop_interns[OF S])
  next
    case (EXPR_LAMBDA ps body)
    then show ?thesis using res
      by (auto simp: expr_lambda_subst_def bind_eq_Some_conv
          dest!: expr_lambda_loop_interns[OF S])
  next
    case (EXPR_CALL f args)
    then show ?thesis using res
      by (auto simp: bind_eq_Some_conv split: if_splits dest!: D L)
  next
    case (EXPR_STRUCT fs)
    then show ?thesis using res
      by (auto simp: expr_struct_subst_def bind_eq_Some_conv
          dest!: expr_struct_loop_interns[OF S])
  next
    case (EXPR_UNION fs)
    then show ?thesis using res
      by (auto simp: bind_eq_Some_conv dest!: L)
  next
    case (EXPR_PACK ty as)
    then show ?thesis using res
      by (auto simp: expr_pack_subst_def bind_eq_Some_conv
          dest!: expr_pack_loop_interns[OF S])
  next
    case (EXPR_STATEMENT s)
    then show ?thesis using res by (auto simp: bind_eq_Some_conv dest!: DS)
  qed (use res in \<open>auto simp: bind_eq_Some_conv dest!: D\<close>)
  have St: "set (interns c) \<subseteq> set (interns c')"
    if res: "statement_subst_fuel layout (Suc d) c s n r = Some (ok, s', c')"
    for c s n r ok s' c'
  proof (cases s)
    case (STATEMENT_BLOCK bl)
    then show ?thesis using res
      by (auto simp: bind_eq_Some_conv block_subst_def dest!: LS)
  next
    case (STATEMENT_DECL t nm i)
    then show ?thesis using res
      by (cases i) (auto simp: bind_eq_Some_conv split: if_splits dest!: D)
  next
    case (STATEMENT_IFTHENELSE ifs els)
    then show ?thesis using res
      by (auto simp: bind_eq_Some_conv block_subst_def split: if_splits
          dest!: LS ifthenelse_subst_loop_interns[OF S SS])
  qed (use res in \<open>auto simp: bind_eq_Some_conv dest!: D\<close>)
  show ?case unfolding interns_mono_def using E St by blast
qed


section \<open>The parameter names of a binder after a successful substitution\<close>







section \<open>Substitution fails only at a field name that is free in the replacement\<close>

lemma capture_freeD:
  assumes "capture_free rf S" and "S c x n r = Some (ok, x', c')"
    and "rf x \<subseteq> B" and "B \<inter> expr_free_vars r = {}" and "B \<subseteq> set (interns c)"
    and "record_fields r \<subseteq> set (interns c)"
  shows "ok" and "rf x' \<subseteq> B \<union> record_fields r"
proof -
  have "rf x \<inter> expr_free_vars r = {}" "rf x \<subseteq> set (interns c)"
    using assms(3,4,5) by blast+
  with assms(1,2,6) have "ok \<and> rf x' \<subseteq> rf x \<union> record_fields r"
    unfolding capture_free_def by blast
  then show "ok" and "rf x' \<subseteq> B \<union> record_fields r" using assms(3) by blast+
qed

lemma Union_map_le: "\<Union> (set (map f xs)) \<subseteq> B \<longleftrightarrow> (\<forall>x\<in>set xs. f x \<subseteq> B)"
  by auto

lemma record_fields_le:
  "record_fields (EXPR_FUNC_TYPE ret ps) \<subseteq> B \<longleftrightarrow>
     record_fields ret \<subseteq> B \<and> (\<forall>p\<in>set ps. record_fields (fst p) \<subseteq> B)"
  "record_fields (EXPR_LAMBDA qs body) \<subseteq> B \<longleftrightarrow>
     record_fields body \<subseteq> B \<and> (\<forall>p\<in>set qs. record_fields (fst p) \<subseteq> B)"
  "record_fields (EXPR_CALL f args) \<subseteq> B \<longleftrightarrow>
     record_fields f \<subseteq> B \<and> (\<forall>x\<in>set args. record_fields x \<subseteq> B)"
  "record_fields (EXPR_STRUCT fs) \<subseteq> B \<longleftrightarrow>
     set (map snd fs) \<subseteq> B \<and> (\<forall>p\<in>set fs. record_fields (fst p) \<subseteq> B)"
  "record_fields (EXPR_UNION fs) \<subseteq> B \<longleftrightarrow> (\<forall>p\<in>set fs. record_fields (fst p) \<subseteq> B)"
  "record_fields (EXPR_PACK ty as) \<subseteq> B \<longleftrightarrow>
     record_fields ty \<subseteq> B \<and> set (map fst as) \<subseteq> B
     \<and> (\<forall>p\<in>set as. record_fields (snd p) \<subseteq> B)"
  "statement_record_fields (STATEMENT_BLOCK bl) \<subseteq> B \<longleftrightarrow>
     (\<forall>s\<in>set bl. statement_record_fields s \<subseteq> B)"
  "statement_record_fields (STATEMENT_IFTHENELSE ifs els) \<subseteq> B \<longleftrightarrow>
     (\<forall>p\<in>set ifs. record_fields (fst p) \<subseteq> B
        \<and> (\<forall>s\<in>set (snd p). statement_record_fields s \<subseteq> B))
     \<and> (\<forall>s\<in>set els. statement_record_fields s \<subseteq> B)"
  unfolding record_fields.simps statement_record_fields.simps map_map Un_subset_iff Union_map_le
  by (auto simp add: split_beta Union_map_le)

lemma subst_each_capture_free:
  assumes S: "capture_free rf S" and M: "interns_mono S"
    and B: "B \<inter> expr_free_vars r = {}" and r: "record_fields r \<subseteq> set (interns c0)"
  shows "subst_each S c xs n r = Some (ok, xs', c') \<Longrightarrow> \<forall>x\<in>set xs. rf x \<subseteq> B \<Longrightarrow>
         B \<subseteq> set (interns c) \<Longrightarrow> set (interns c0) \<subseteq> set (interns c) \<Longrightarrow>
         ok \<and> (\<forall>x\<in>set xs'. rf x \<subseteq> B \<union> record_fields r)"
proof (induction xs arbitrary: c xs')
  case Nil then show ?case by auto
next
  case (Cons x xs)
  have rc: "record_fields r \<subseteq> set (interns c)" using r Cons.prems(4) by blast
  have x: "rf x \<subseteq> B" using Cons.prems(2) by simp
  from Cons.prems(1) show ?case
  proof (cases rule: subst_each_ConsE)
    case (stop x')
    then show ?thesis using capture_freeD(1)[OF S stop(1) x B Cons.prems(3) rc] by simp
  next
    case (continue x' c1 xs1)
    have c1: "set (interns c) \<subseteq> set (interns c1)" using interns_monoD[OF M continue(1)] .
    have "ok \<and> (\<forall>x\<in>set xs1. rf x \<subseteq> B \<union> record_fields r)"
      using Cons.IH[OF continue(2)] Cons.prems(2,3,4) c1 by auto
    then show ?thesis
      using capture_freeD(2)[OF S continue(1) x B Cons.prems(3) rc] continue(3) by simp
  qed
qed

lemma subst_repeat_capture_free:
  assumes S: "capture_free record_fields S" and M: "interns_mono S"
  shows "subst_repeat S k c e old (EXPR_IDENT new) = Some (ok, e', c') \<Longrightarrow>
         record_fields e \<subseteq> B \<Longrightarrow> new \<notin> B \<Longrightarrow> B \<subseteq> set (interns c) \<Longrightarrow>
         ok \<and> record_fields e' \<subseteq> B"
proof (induction k arbitrary: c e)
  case 0 then show ?case by auto
next
  case (Suc k)
  have B: "B \<inter> expr_free_vars (EXPR_IDENT new) = {}"
    using Suc.prems(3) by (simp add: symbol_set_defs)
  have r: "record_fields (EXPR_IDENT new) \<subseteq> set (interns c)" by simp
  from Suc.prems(1) show ?case
  proof (cases rule: subst_repeat_SucE)
    case stop
    then show ?thesis using capture_freeD(1)[OF S stop(1) Suc.prems(2) B Suc.prems(4) r] by simp
  next
    case (continue e1 c1)
    have "record_fields e1 \<subseteq> B"
      using capture_freeD(2)[OF S continue(1) Suc.prems(2) B Suc.prems(4) r] by simp
    moreover have "B \<subseteq> set (interns c1)"
      using interns_monoD[OF M continue(1)] Suc.prems(4) by blast
    ultimately show ?thesis using Suc.IH[OF continue(2)] Suc.prems(3) by blast
  qed
qed

lemma rename_capture_free:
  assumes S: "capture_free record_fields S"
    and res: "S c e old (EXPR_IDENT new) = Some (ok, e', c')"
    and e: "record_fields e \<subseteq> B" and new: "new \<notin> B" and c: "B \<subseteq> set (interns c)"
  shows "ok \<and> record_fields e' \<subseteq> B"
proof -
  have B: "B \<inter> expr_free_vars (EXPR_IDENT new) = {}"
    using new by (simp add: symbol_set_defs)
  have r: "record_fields (EXPR_IDENT new) \<subseteq> set (interns c)" by simp
  show ?thesis using capture_freeD[OF S res e B c r] by simp
qed

lemma expr_func_type_loop_capture_free:
  assumes S: "capture_free record_fields S" and M: "interns_mono S"
    and B: "B \<inter> expr_free_vars r = {}" and r: "record_fields r \<subseteq> set (interns c0)"
  shows "expr_func_type_loop S F c ret ps n r = Some (ok, (ret', ps'), c') \<Longrightarrow>
         record_fields ret \<subseteq> B \<Longrightarrow> \<forall>p\<in>set ps. record_fields (fst p) \<subseteq> B \<Longrightarrow>
         B \<subseteq> set (interns c) \<Longrightarrow> set (interns c0) \<subseteq> set (interns c) \<Longrightarrow>
         ok \<and> record_fields ret' \<subseteq> B \<union> record_fields r
            \<and> (\<forall>p\<in>set ps'. record_fields (fst p) \<subseteq> B \<union> record_fields r)"
proof (induction ps arbitrary: c ret ps')
  case Nil
  have rc: "record_fields r \<subseteq> set (interns c)" using r Nil.prems(5) by blast
  from Nil.prems(1) show ?case
    by (cases rule: expr_func_type_loop_NilE)
      (use capture_freeD[OF S _ Nil.prems(2) B Nil.prems(4) rc] in auto)
next
  case (Cons p ps)
  obtain t nm where p: "p = (t, nm)" by (cases p)
  have rc: "record_fields r \<subseteq> set (interns c)" using r Cons.prems(5) by blast
  have t: "record_fields t \<subseteq> B" and rest: "\<forall>p\<in>set ps. record_fields (fst p) \<subseteq> B"
    using Cons.prems(3) by (simp_all add: p)
  have rest': "\<forall>p\<in>set ps. record_fields (fst p) \<subseteq> B \<union> record_fields r"
    and ret': "record_fields ret \<subseteq> B \<union> record_fields r"
    using rest Cons.prems(2) by blast+
  note D = interns_monoD[OF M] and R = subst_repeat_interns[OF M]
    and C = capture_freeD[OF S _ t B Cons.prems(4) rc]
  let ?B = "B \<union> record_fields r"
  from Cons.prems(1)[unfolded p] show ?case
  proof (cases rule: expr_func_type_loop_ConsE)
    case (stop t')
    then show ?thesis using C(1)[OF stop(1)] by simp
  next
    case (shadow t')
    then show ?thesis using C(2)[OF shadow(1)] rest' ret' by simp
  next
    case (keep t' c1 ps1)
    have c1: "set (interns c) \<subseteq> set (interns c1)" using D[OF keep(1)] .
    from Cons.IH[OF keep(4) Cons.prems(2) rest] Cons.prems(4,5) c1
    show ?thesis using C(2)[OF keep(1)] keep(5) by auto
  next
    case (rename_stop1 t' c1 old new c2 t'')
    have c1: "set (interns c) \<subseteq> set (interns c1)" using D[OF rename_stop1(1)] .
    have new: "new \<notin> ?B" using symbol_gensym_fresh(1)[OF rename_stop1(5)] c1 Cons.prems(4) rc
      by blast
    have "?B \<subseteq> set (interns c2)"
      using symbol_gensym_fresh(2)[OF rename_stop1(5)] c1 Cons.prems(4) rc by blast
    from subst_repeat_capture_free[OF S M rename_stop1(6) C(2)[OF rename_stop1(1)] new this]
    show ?thesis by simp
  next
    case (rename_stop2 t' c1 old new c2 t'' c3)
    have c1: "set (interns c) \<subseteq> set (interns c1)" using D[OF rename_stop2(1)] .
    have new: "new \<notin> ?B" using symbol_gensym_fresh(1)[OF rename_stop2(5)] c1 Cons.prems(4) rc
      by blast
    have "?B \<subseteq> set (interns c3)"
      using symbol_gensym_fresh(2)[OF rename_stop2(5)] R[OF rename_stop2(6)] c1
        Cons.prems(4) rc by blast
    from rename_capture_free[OF S rename_stop2(7) ret' new this]
    show ?thesis by simp
  next
    case (rename t' c1 old new c2 t'' c3 ret1 c4 ps1)
    have c1: "set (interns c) \<subseteq> set (interns c1)" using D[OF rename(1)] .
    have new: "new \<notin> ?B" and newB: "new \<notin> B"
      using symbol_gensym_fresh(1)[OF rename(5)] c1 Cons.prems(4) rc by blast+
    have c2: "set (interns c1) \<subseteq> set (interns c2)"
      using symbol_gensym_fresh(2)[OF rename(5)] by blast
    have c3: "set (interns c2) \<subseteq> set (interns c3)" using R[OF rename(6)] .
    have c4: "set (interns c3) \<subseteq> set (interns c4)" using D[OF rename(7)] .
    have B2: "?B \<subseteq> set (interns c2)" using c1 c2 Cons.prems(4) rc by blast
    have t'': "record_fields t'' \<subseteq> ?B"
      using subst_repeat_capture_free[OF S M rename(6) C(2)[OF rename(1)] new B2] by simp
    have B3: "B \<subseteq> set (interns c3)" using c1 c2 c3 Cons.prems(4) by blast
    have ret1: "record_fields ret1 \<subseteq> B"
      using rename_capture_free[OF S rename(7) Cons.prems(2) newB B3] by simp
    have "B \<subseteq> set (interns c4)" "set (interns c0) \<subseteq> set (interns c4)"
      using B3 c4 c1 c2 c3 Cons.prems(5) by blast+
    from Cons.IH[OF rename(8) ret1 rest this]
    show ?thesis using t'' rename(9) by auto
  qed
qed

lemma expr_lambda_loop_capture_free:
  assumes S: "capture_free record_fields S" and M: "interns_mono S"
    and B: "B \<inter> expr_free_vars r = {}" and r: "record_fields r \<subseteq> set (interns c0)"
  shows "expr_lambda_loop S F b i c body ps n r = Some (ok, (body', ps'), c') \<Longrightarrow>
         record_fields body \<subseteq> B \<Longrightarrow> \<forall>p\<in>set ps. record_fields (fst p) \<subseteq> B \<Longrightarrow>
         B \<subseteq> set (interns c) \<Longrightarrow> set (interns c0) \<subseteq> set (interns c) \<Longrightarrow>
         ok \<and> record_fields body' \<subseteq> B \<union> record_fields r
            \<and> (\<forall>p\<in>set ps'. record_fields (fst p) \<subseteq> B \<union> record_fields r)"
proof (induction ps arbitrary: i c body ps')
  case Nil
  have rc: "record_fields r \<subseteq> set (interns c)" using r Nil.prems(5) by blast
  from Nil.prems(1) show ?case
    by (cases rule: expr_lambda_loop_NilE)
      (use capture_freeD[OF S _ Nil.prems(2) B Nil.prems(4) rc] in auto)
next
  case (Cons p ps)
  obtain t nm where p: "p = (t, nm)" by (cases p)
  have rc: "record_fields r \<subseteq> set (interns c)" using r Cons.prems(5) by blast
  have t: "record_fields t \<subseteq> B" and rest: "\<forall>p\<in>set ps. record_fields (fst p) \<subseteq> B"
    using Cons.prems(3) by (simp_all add: p)
  have rest': "\<forall>p\<in>set ps. record_fields (fst p) \<subseteq> B \<union> record_fields r"
    and ret': "record_fields body \<subseteq> B \<union> record_fields r"
    using rest Cons.prems(2) by blast+
  note D = interns_monoD[OF M] and R = subst_repeat_interns[OF M]
    and C = capture_freeD[OF S _ t B Cons.prems(4) rc]
  let ?B = "B \<union> record_fields r"
  from Cons.prems(1)[unfolded p] show ?case
  proof (cases rule: expr_lambda_loop_ConsE)
    case (stop t')
    then show ?thesis using C(1)[OF stop(1)] by simp
  next
    case (shadow t')
    then show ?thesis using C(2)[OF shadow(1)] rest' ret' by simp
  next
    case (keep t' c1 ps1)
    have c1: "set (interns c) \<subseteq> set (interns c1)" using D[OF keep(1)] .
    from Cons.IH[OF keep(4) Cons.prems(2) rest] Cons.prems(4,5) c1
    show ?thesis using C(2)[OF keep(1)] keep(5) by auto
  next
    case (rename_stop1 t' c1 new c2 t'')
    have c1: "set (interns c) \<subseteq> set (interns c1)" using D[OF rename_stop1(1)] .
    have new: "new \<notin> ?B" using symbol_gensym_fresh(1)[OF rename_stop1(4)] c1 Cons.prems(4) rc
      by blast
    have "?B \<subseteq> set (interns c2)"
      using symbol_gensym_fresh(2)[OF rename_stop1(4)] c1 Cons.prems(4) rc by blast
    from subst_repeat_capture_free[OF S M rename_stop1(5) C(2)[OF rename_stop1(1)] new this]
    show ?thesis by simp
  next
    case (rename_stop2 t' c1 new c2 t'' c3)
    have c1: "set (interns c) \<subseteq> set (interns c1)" using D[OF rename_stop2(1)] .
    have new: "new \<notin> ?B" using symbol_gensym_fresh(1)[OF rename_stop2(4)] c1 Cons.prems(4) rc
      by blast
    have "?B \<subseteq> set (interns c3)"
      using symbol_gensym_fresh(2)[OF rename_stop2(4)] R[OF rename_stop2(5)] c1
        Cons.prems(4) rc by blast
    from rename_capture_free[OF S rename_stop2(6) ret' new this]
    show ?thesis by simp
  next
    case (rename t' c1 new c2 t'' c3 body1 c4 ps1)
    have c1: "set (interns c) \<subseteq> set (interns c1)" using D[OF rename(1)] .
    have new: "new \<notin> ?B" and newB: "new \<notin> B"
      using symbol_gensym_fresh(1)[OF rename(4)] c1 Cons.prems(4) rc by blast+
    have c2: "set (interns c1) \<subseteq> set (interns c2)"
      using symbol_gensym_fresh(2)[OF rename(4)] by blast
    have c3: "set (interns c2) \<subseteq> set (interns c3)" using R[OF rename(5)] .
    have c4: "set (interns c3) \<subseteq> set (interns c4)" using D[OF rename(6)] .
    have B2: "?B \<subseteq> set (interns c2)" using c1 c2 Cons.prems(4) rc by blast
    have t'': "record_fields t'' \<subseteq> ?B"
      using subst_repeat_capture_free[OF S M rename(5) C(2)[OF rename(1)] new B2] by simp
    have B3: "B \<subseteq> set (interns c3)" using c1 c2 c3 Cons.prems(4) by blast
    have body1: "record_fields body1 \<subseteq> B"
      using rename_capture_free[OF S rename(6) Cons.prems(2) newB B3] by simp
    have "B \<subseteq> set (interns c4)" "set (interns c0) \<subseteq> set (interns c4)"
      using B3 c4 c1 c2 c3 Cons.prems(5) by blast+
    from Cons.IH[OF rename(7) body1 rest this]
    show ?thesis using t'' rename(8) by auto
  qed
qed

lemma expr_struct_loop_capture_free:
  assumes S: "capture_free record_fields S" and M: "interns_mono S"
    and B: "B \<inter> expr_free_vars r = {}" and r: "record_fields r \<subseteq> set (interns c0)"
  shows "expr_struct_loop S (expr_free_vars r) c fs n r = Some (ok, fs', c') \<Longrightarrow>
         set (map snd fs) \<subseteq> B \<Longrightarrow> \<forall>p\<in>set fs. record_fields (fst p) \<subseteq> B \<Longrightarrow>
         B \<subseteq> set (interns c) \<Longrightarrow> set (interns c0) \<subseteq> set (interns c) \<Longrightarrow>
         ok \<and> (\<forall>p\<in>set fs'. record_fields (fst p) \<subseteq> B \<union> record_fields r)"
proof (induction fs arbitrary: c fs')
  case Nil then show ?case by auto
next
  case (Cons p fs)
  obtain t f where p: "p = (t, f)" by (cases p)
  have rc: "record_fields r \<subseteq> set (interns c)" using r Cons.prems(5) by blast
  have t: "record_fields t \<subseteq> B" and rest: "\<forall>p\<in>set fs. record_fields (fst p) \<subseteq> B"
    and f: "f \<notin> expr_free_vars r" and names: "set (map snd fs) \<subseteq> B"
    using Cons.prems(2,3) B by (auto simp: p)
  have rest': "\<forall>p\<in>set fs. record_fields (fst p) \<subseteq> B \<union> record_fields r"
    using rest by blast
  note C = capture_freeD[OF S _ t B Cons.prems(4) rc]
  from Cons.prems(1)[unfolded p] show ?case
  proof (cases rule: expr_struct_loop_ConsE)
    case (stop t')
    then show ?thesis using C(1)[OF stop(1)] by simp
  next
    case (shadow t')
    then show ?thesis using C(2)[OF shadow(1)] rest' by simp
  next
    case (refuse t')
    then show ?thesis using f by simp
  next
    case (continue t' c1 fs1)
    have c1: "set (interns c) \<subseteq> set (interns c1)" using interns_monoD[OF M continue(1)] .
    from Cons.IH[OF continue(4) names rest] Cons.prems(4,5) c1
    show ?thesis using C(2)[OF continue(1)] continue(5) by auto
  qed
qed

lemma expr_pack_loop_capture_free:
  assumes S: "capture_free record_fields S" and M: "interns_mono S"
    and B: "B \<inter> expr_free_vars r = {}" and r: "record_fields r \<subseteq> set (interns c0)"
  shows "expr_pack_loop S (expr_free_vars r) c as n r = Some (ok, as', c') \<Longrightarrow>
         set (map fst as) \<subseteq> B \<Longrightarrow> \<forall>p\<in>set as. record_fields (snd p) \<subseteq> B \<Longrightarrow>
         B \<subseteq> set (interns c) \<Longrightarrow> set (interns c0) \<subseteq> set (interns c) \<Longrightarrow>
         ok \<and> (\<forall>p\<in>set as'. record_fields (snd p) \<subseteq> B \<union> record_fields r)"
proof (induction as arbitrary: c as')
  case Nil then show ?case by auto
next
  case (Cons p as)
  obtain f a where p: "p = (f, a)" by (cases p)
  have rc: "record_fields r \<subseteq> set (interns c)" using r Cons.prems(5) by blast
  have t: "record_fields a \<subseteq> B" and rest: "\<forall>p\<in>set as. record_fields (snd p) \<subseteq> B"
    and f: "f \<notin> expr_free_vars r" and names: "set (map fst as) \<subseteq> B"
    using Cons.prems(2,3) B by (auto simp: p)
  have rest': "\<forall>p\<in>set as. record_fields (snd p) \<subseteq> B \<union> record_fields r"
    using rest by blast
  note C = capture_freeD[OF S _ t B Cons.prems(4) rc]
  from Cons.prems(1)[unfolded p] show ?case
  proof (cases rule: expr_pack_loop_ConsE)
    case (stop a')
    then show ?thesis using C(1)[OF stop(1)] by simp
  next
    case (shadow a')
    then show ?thesis using C(2)[OF shadow(1)] rest' by simp
  next
    case (refuse a')
    then show ?thesis using f by simp
  next
    case (continue a' c1 as1)
    have c1: "set (interns c) \<subseteq> set (interns c1)" using interns_monoD[OF M continue(1)] .
    from Cons.IH[OF continue(4) names rest] Cons.prems(4,5) c1
    show ?thesis using C(2)[OF continue(1)] continue(5) by auto
  qed
qed

lemma ifthenelse_subst_loop_capture_free:
  assumes S: "capture_free record_fields S" and M: "interns_mono S"
    and SS: "capture_free statement_record_fields SS" and MS: "interns_mono SS"
    and B: "B \<inter> expr_free_vars r = {}" and r: "record_fields r \<subseteq> set (interns c0)"
  shows "ifthenelse_subst_loop S SS c ifs n r = Some (ok, ifs', c') \<Longrightarrow>
         \<forall>p\<in>set ifs. record_fields (fst p) \<subseteq> B
            \<and> (\<forall>s\<in>set (snd p). statement_record_fields s \<subseteq> B) \<Longrightarrow>
         B \<subseteq> set (interns c) \<Longrightarrow> set (interns c0) \<subseteq> set (interns c) \<Longrightarrow>
         ok \<and> (\<forall>p\<in>set ifs'. record_fields (fst p) \<subseteq> B \<union> record_fields r
                  \<and> (\<forall>s\<in>set (snd p). statement_record_fields s \<subseteq> B \<union> record_fields r))"
proof (induction ifs arbitrary: c ifs')
  case Nil then show ?case by auto
next
  case (Cons p ifs)
  obtain e b where p: "p = (e, b)" by (cases p)
  have rc: "record_fields r \<subseteq> set (interns c)" using r Cons.prems(4) by blast
  have e: "record_fields e \<subseteq> B" and b: "\<forall>s\<in>set b. statement_record_fields s \<subseteq> B"
    and rest: "\<forall>p\<in>set ifs. record_fields (fst p) \<subseteq> B
            \<and> (\<forall>s\<in>set (snd p). statement_record_fields s \<subseteq> B)"
    using Cons.prems(2) by (simp_all add: p)
  note C = capture_freeD[OF S _ e B Cons.prems(3) rc]
  from Cons.prems(1)[unfolded p] show ?case
  proof (cases rule: ifthenelse_subst_loop_ConsE)
    case (stop1 e')
    then show ?thesis using C(1)[OF stop1(1)] by simp
  next
    case (stop2 e' c1 b')
    have c1: "set (interns c) \<subseteq> set (interns c1)" using interns_monoD[OF M stop2(1)] .
    from subst_each_capture_free[OF SS MS B r stop2(2) b] Cons.prems(3,4) c1
    show ?thesis by auto
  next
    case (continue e' c1 b' c2 ifs1)
    have c1: "set (interns c) \<subseteq> set (interns c1)" using interns_monoD[OF M continue(1)] .
    have c2: "set (interns c1) \<subseteq> set (interns c2)"
      using subst_each_interns[OF MS continue(2)] .
    have b': "\<forall>s\<in>set b'. statement_record_fields s \<subseteq> B \<union> record_fields r"
      using subst_each_capture_free[OF SS MS B r continue(2) b] Cons.prems(3,4) c1 by auto
    have "B \<subseteq> set (interns c2)" "set (interns c0) \<subseteq> set (interns c2)"
      using c1 c2 Cons.prems(3,4) by blast+
    from Cons.IH[OF continue(3) rest this]
    show ?thesis using C(2)[OF continue(1)] b' continue(4) by auto
  qed
qed


lemma subst_fuel_capture_free:
  "capture_free record_fields (expr_subst_fuel layout d)
   \<and> capture_free statement_record_fields (statement_subst_fuel layout d)"
proof (induction d)
  case 0
  show ?case by (simp add: capture_free_def)
next
  case (Suc d)
  let ?S = "expr_subst_fuel layout d" and ?SS = "statement_subst_fuel layout d"
  from Suc have S: "capture_free record_fields ?S"
    and SS: "capture_free statement_record_fields ?SS" by simp_all
  have M: "interns_mono ?S" and MS: "interns_mono ?SS"
    using subst_fuel_interns by blast+
  have E: "ok \<and> record_fields e' \<subseteq> record_fields e \<union> record_fields r"
    if res: "expr_subst_fuel layout (Suc d) c e n r = Some (ok, e', c')"
      and B: "record_fields e \<inter> expr_free_vars r = {}"
      and Bc: "record_fields e \<subseteq> set (interns c)"
      and r: "record_fields r \<subseteq> set (interns c)"
    for c e n r ok e' c'
  proof -
    let ?B = "record_fields e"
    note each = subst_each_capture_free[OF S M B r _ _ Bc subset_refl]
    show ?thesis
    proof (cases e)
      case (EXPR_LITERAL l)
      then show ?thesis using res by auto
    next
      case (EXPR_IDENT s)
      then show ?thesis using res by (auto simp: expr_copy_id)
    next
      case (EXPR_BIN_OP op e1 e2)
      have "\<exists>e1' e2'. subst_each ?S c [e1, e2] n r = Some (ok, [e1', e2'], c') \<and> e' = EXPR_BIN_OP op e1' e2'"
        using res[unfolded EXPR_BIN_OP] by (auto split: Option.bind_splits if_splits)
      then obtain e1' e2' where
        "subst_each ?S c [e1, e2] n r = Some (ok, [e1', e2'], c')" "e' = EXPR_BIN_OP op e1' e2'"
        by blast
      from each[OF this(1)] this(2) show ?thesis by (auto simp: EXPR_BIN_OP)
    next
      case (EXPR_IFTHENELSE p t el)
      have "\<exists>p' t' el'. subst_each ?S c [p, t, el] n r = Some (ok, [p', t', el'], c') \<and> e' = EXPR_IFTHENELSE p' t' el'"
        using res[unfolded EXPR_IFTHENELSE] by (auto split: Option.bind_splits if_splits)
      then obtain p' t' el' where
        "subst_each ?S c [p, t, el] n r = Some (ok, [p', t', el'], c')" "e' = EXPR_IFTHENELSE p' t' el'"
        by blast
      from each[OF this(1)] this(2) show ?thesis by (auto simp: EXPR_IFTHENELSE)
    next
      case (EXPR_FUNC_TYPE ret ps)
      from res[unfolded EXPR_FUNC_TYPE] obtain ret' ps' where
        l: "expr_func_type_loop ?S (expr_free_vars r) c ret ps n r = Some (ok, (ret', ps'), c')"
        and e': "e' = EXPR_FUNC_TYPE ret' ps'"
        by (auto simp: expr_func_type_subst_def bind_eq_Some_conv)
      have "record_fields ret \<subseteq> ?B" "\<forall>p\<in>set ps. record_fields (fst p) \<subseteq> ?B"
        using record_fields_le(1)[of ret ps ?B] by (simp_all add: EXPR_FUNC_TYPE)
      from expr_func_type_loop_capture_free[OF S M B r l this Bc subset_refl]
      show ?thesis unfolding e' record_fields_le by simp
    next
      case (EXPR_LAMBDA ps body)
      from res[unfolded EXPR_LAMBDA] obtain body' ps' where
        l: "expr_lambda_loop ?S (expr_free_vars r) (layout ps) 0 c body ps n r
            = Some (ok, (body', ps'), c')"
        and e': "e' = EXPR_LAMBDA ps' body'"
        by (auto simp: expr_lambda_subst_def bind_eq_Some_conv)
      have "record_fields body \<subseteq> ?B" "\<forall>p\<in>set ps. record_fields (fst p) \<subseteq> ?B"
        using record_fields_le(2)[of ps body ?B] by (simp_all add: EXPR_LAMBDA)
      from expr_lambda_loop_capture_free[OF S M B r l this Bc subset_refl]
      show ?thesis unfolding e' record_fields_le by simp
    next
      case (EXPR_CALL f args)
      have "\<exists>f' args'. subst_each ?S c (f # args) n r = Some (ok, f' # args', c')
          \<and> e' = EXPR_CALL f' args'"
        using res[unfolded EXPR_CALL] by (auto split: Option.bind_splits if_splits)
      then obtain f' args' where
        l: "subst_each ?S c (f # args) n r = Some (ok, f' # args', c')"
        and e': "e' = EXPR_CALL f' args'"
        by blast
      have "\<forall>x\<in>set (f # args). record_fields x \<subseteq> ?B"
        using record_fields_le(3)[of f args ?B] by (simp add: EXPR_CALL)
      from each[OF l this] show ?thesis unfolding e' record_fields_le by simp
    next
      case (EXPR_STRUCT fs)
      from res[unfolded EXPR_STRUCT] obtain fs' where
        l: "expr_struct_loop ?S (expr_free_vars r) c fs n r = Some (ok, fs', c')"
        and e': "e' = EXPR_STRUCT fs'"
        by (auto simp: expr_struct_subst_def bind_eq_Some_conv)
      have "set (map snd fs) \<subseteq> ?B" "\<forall>p\<in>set fs. record_fields (fst p) \<subseteq> ?B"
        using record_fields_le(4)[of fs ?B] by (simp_all add: EXPR_STRUCT)
      from expr_struct_loop_capture_free[OF S M B r l this Bc subset_refl] this(1)
        expr_struct_loop_names[OF l]
      show ?thesis unfolding e' record_fields_le by auto
    next
      case (EXPR_UNION fs)
      from res[unfolded EXPR_UNION] obtain tys where
        l: "subst_each ?S c (map fst fs) n r = Some (ok, tys, c')"
        and e': "e' = EXPR_UNION (zip tys (map snd fs))"
        by (auto simp: bind_eq_Some_conv)
      have "\<forall>x\<in>set (map fst fs). record_fields x \<subseteq> ?B"
        using record_fields_le(5)[of fs ?B] by (simp add: EXPR_UNION)
      from each[OF l this]
      have "ok" "\<forall>p\<in>set (zip tys (map snd fs)).
                  record_fields (fst p) \<subseteq> ?B \<union> record_fields r"
        by (auto dest!: set_zip_leftD)
      then show ?thesis unfolding e' record_fields_le by simp
    next
      case (EXPR_PACK ty as)
      from res[unfolded EXPR_PACK] obtain as' where
        l: "expr_pack_loop ?S (expr_free_vars r) c as n r = Some (ok, as', c')"
        and e': "e' = EXPR_PACK ty as'"
        by (auto simp: expr_pack_subst_def bind_eq_Some_conv)
      have b: "record_fields ty \<subseteq> ?B" "set (map fst as) \<subseteq> ?B"
        "\<forall>p\<in>set as. record_fields (snd p) \<subseteq> ?B"
        using record_fields_le(6)[of ty as ?B] by (simp_all add: EXPR_PACK)
      from expr_pack_loop_capture_free[OF S M B r l b(2,3) Bc subset_refl] b(1,2)
        expr_pack_loop_names[OF l]
      show ?thesis unfolding e' record_fields_le by auto
    next
      case (EXPR_MEMBER rcd f)
      have "\<exists>x'. subst_each ?S c [rcd] n r = Some (ok, [x'], c') \<and> e' = EXPR_MEMBER x' f"
        using res[unfolded EXPR_MEMBER] by (auto split: Option.bind_splits if_splits)
      then obtain x' where
        "subst_each ?S c [rcd] n r = Some (ok, [x'], c')" "e' = EXPR_MEMBER x' f"
        by blast
      from each[OF this(1)] this(2) show ?thesis by (auto simp: EXPR_MEMBER)
    next
      case (EXPR_POINTER x)
      have "\<exists>x'. subst_each ?S c [x] n r = Some (ok, [x'], c') \<and> e' = EXPR_POINTER x'"
        using res[unfolded EXPR_POINTER] by (auto split: Option.bind_splits if_splits)
      then obtain x' where
        "subst_each ?S c [x] n r = Some (ok, [x'], c')" "e' = EXPR_POINTER x'"
        by blast
      from each[OF this(1)] this(2) show ?thesis by (auto simp: EXPR_POINTER)
    next
      case (EXPR_REFERENCE x)
      have "\<exists>x'. subst_each ?S c [x] n r = Some (ok, [x'], c') \<and> e' = EXPR_REFERENCE x'"
        using res[unfolded EXPR_REFERENCE] by (auto split: Option.bind_splits if_splits)
      then obtain x' where
        "subst_each ?S c [x] n r = Some (ok, [x'], c')" "e' = EXPR_REFERENCE x'"
        by blast
      from each[OF this(1)] this(2) show ?thesis by (auto simp: EXPR_REFERENCE)
    next
      case (EXPR_DEREFERENCE x)
      have "\<exists>x'. subst_each ?S c [x] n r = Some (ok, [x'], c') \<and> e' = EXPR_DEREFERENCE x'"
        using res[unfolded EXPR_DEREFERENCE] by (auto split: Option.bind_splits if_splits)
      then obtain x' where
        "subst_each ?S c [x] n r = Some (ok, [x'], c')" "e' = EXPR_DEREFERENCE x'"
        by blast
      from each[OF this(1)] this(2) show ?thesis by (auto simp: EXPR_DEREFERENCE)
    next
      case (EXPR_STATEMENT s)
      from res[unfolded EXPR_STATEMENT] obtain s' where
        "?SS c s n r = Some (ok, s', c')" "e' = EXPR_STATEMENT s'"
        by (auto simp: bind_eq_Some_conv)
      from capture_freeD[OF SS this(1) _ B Bc r, of ] this(2) show ?thesis
        by (auto simp: EXPR_STATEMENT)
    qed
  qed
  have St: "ok \<and> statement_record_fields s' \<subseteq> statement_record_fields s \<union> record_fields r"
    if res: "statement_subst_fuel layout (Suc d) c s n r = Some (ok, s', c')"
      and B: "statement_record_fields s \<inter> expr_free_vars r = {}"
      and Bc: "statement_record_fields s \<subseteq> set (interns c)"
      and r: "record_fields r \<subseteq> set (interns c)"
    for c s n r ok s' c'
  proof -
    let ?B = "statement_record_fields s"
    note each = subst_each_capture_free[OF S M B r _ _ Bc subset_refl]
    note eachS = subst_each_capture_free[OF SS MS B r _ _ _ _]
    show ?thesis
    proof (cases s)
      case STATEMENT_EMPTY
      then show ?thesis using res by auto
    next
      case (STATEMENT_EXPR e)
      have "\<exists>x'. subst_each ?S c [e] n r = Some (ok, [x'], c') \<and> s' = STATEMENT_EXPR x'"
        using res[unfolded STATEMENT_EXPR] by (auto split: Option.bind_splits if_splits)
      then obtain x' where
        "subst_each ?S c [e] n r = Some (ok, [x'], c')" "s' = STATEMENT_EXPR x'"
        by blast
      from each[OF this(1)] this(2) show ?thesis by (auto simp: STATEMENT_EXPR)
    next
      case (STATEMENT_RETURN e)
      have "\<exists>x'. subst_each ?S c [e] n r = Some (ok, [x'], c') \<and> s' = STATEMENT_RETURN x'"
        using res[unfolded STATEMENT_RETURN] by (auto split: Option.bind_splits if_splits)
      then obtain x' where
        "subst_each ?S c [e] n r = Some (ok, [x'], c')" "s' = STATEMENT_RETURN x'"
        by blast
      from each[OF this(1)] this(2) show ?thesis by (auto simp: STATEMENT_RETURN)
    next
      case (STATEMENT_BLOCK bl)
      from res[unfolded STATEMENT_BLOCK] obtain bl' where
        l: "subst_each ?SS c bl n r = Some (ok, bl', c')" and s': "s' = STATEMENT_BLOCK bl'"
        by (auto simp: bind_eq_Some_conv block_subst_def)
      have "\<forall>x\<in>set bl. statement_record_fields x \<subseteq> ?B"
        using record_fields_le(7)[of bl ?B] by (simp add: STATEMENT_BLOCK)
      from eachS[OF l this Bc subset_refl] show ?thesis unfolding s' record_fields_le by simp
    next
      case (STATEMENT_DECL t nm i)
      show ?thesis
      proof (cases i)
        case None
        have "\<exists>t'. subst_each ?S c [t] n r = Some (ok, [t'], c') \<and> s' = STATEMENT_DECL t' nm None"
          using res[unfolded STATEMENT_DECL None] by (auto split: Option.bind_splits if_splits)
        then obtain t' where
          "subst_each ?S c [t] n r = Some (ok, [t'], c')" "s' = STATEMENT_DECL t' nm None"
          by blast
        from each[OF this(1)] this(2) show ?thesis by (auto simp: STATEMENT_DECL None)
      next
        case (Some v)
        have "\<exists>t' v'. subst_each ?S c [t, v] n r = Some (ok, [t', v'], c') \<and> s' = STATEMENT_DECL t' nm (Some v')"
          using res[unfolded STATEMENT_DECL Some] by (auto split: Option.bind_splits if_splits)
        then obtain t' v' where
          "subst_each ?S c [t, v] n r = Some (ok, [t', v'], c')" "s' = STATEMENT_DECL t' nm (Some v')"
          by blast
        from each[OF this(1)] this(2) show ?thesis by (auto simp: STATEMENT_DECL Some)
      qed
    next
      case (STATEMENT_IFTHENELSE ifs els)
      have b: "\<forall>p\<in>set ifs. record_fields (fst p) \<subseteq> ?B
                 \<and> (\<forall>s\<in>set (snd p). statement_record_fields s \<subseteq> ?B)"
        "\<forall>s\<in>set els. statement_record_fields s \<subseteq> ?B"
        using record_fields_le(8)[of ifs els ?B] by (simp_all add: STATEMENT_IFTHENELSE)
      from res[unfolded STATEMENT_IFTHENELSE] obtain ok1 ifs' c1 where
        l: "ifthenelse_subst_loop ?S ?SS c ifs n r = Some (ok1, ifs', c1)"
        by (auto simp: bind_eq_Some_conv)
      note i = ifthenelse_subst_loop_capture_free[OF S M SS MS B r l b(1) Bc subset_refl]
      then have ok1 by simp
      then obtain els' where
        l2: "subst_each ?SS c1 els n r = Some (ok, els', c')"
        and s': "s' = STATEMENT_IFTHENELSE ifs' els'"
        using res[unfolded STATEMENT_IFTHENELSE] l
        by (auto simp: bind_eq_Some_conv block_subst_def)
      have c1: "set (interns c) \<subseteq> set (interns c1)"
        using ifthenelse_subst_loop_interns[OF M MS l] .
      then have "?B \<subseteq> set (interns c1)" using Bc by blast
      from eachS[OF l2 b(2) this c1] i
      show ?thesis unfolding s' record_fields_le by simp
    qed
  qed
  show ?case unfolding capture_free_def using E St by blast
qed

lemma no_struct_pack_record_fields:
  "no_struct_pack e \<Longrightarrow> record_fields e = {}"
  and "statement_no_struct_pack s \<Longrightarrow> statement_record_fields s = {}"
proof (induction e and s)
  case (STATEMENT_DECL t nm i)
  then show ?case by (cases i) auto
next
  case (STATEMENT_IFTHENELSE ifs els)
  then show ?case by (fastforce simp: list_all_iff prod_set_defs split: prod.splits)
qed (auto simp: list_all_iff prod_set_defs)

text \<open>
  C10.  Let the field names that occur in the replacement be interned symbols.  Then a
  substitution into a term without a struct and without a pack returns true; more
  generally, so does a substitution into a term none of whose field names (interned
  symbols too) is free in the replacement: the field-name check of a struct or a pack is
  the only place where \<open>expr_subst\<close> fails.
\<close>

theorem expr_subst_ok_without_records:
  assumes "record_fields r \<subseteq> set (interns c)"
  shows "(no_struct_pack e \<longrightarrow> fst (expr_subst layout c e n r))
       \<and> (record_fields e \<subseteq> set (interns c) \<and> record_fields e \<inter> expr_free_vars r = {}
          \<longrightarrow> fst (expr_subst layout c e n r))"
proof -
  obtain ok e' c' where res: "expr_subst layout c e n r = (ok, e', c')"
    by (cases "expr_subst layout c e n r")
  have S: "capture_free record_fields
             (expr_subst_fuel layout (Suc (expr_height e + expr_height r)))"
    using subst_fuel_capture_free by blast
  have ok if "record_fields e \<subseteq> set (interns c)" "record_fields e \<inter> expr_free_vars r = {}"
    using capture_freeD(1)[OF S res[unfolded expr_subst_eq] subset_refl that(2,1) assms] .
  then show ?thesis using no_struct_pack_record_fields(1)[of e] by (auto simp: res)
qed

theorem expr_subst_ok_without_records_witness:
  "record_fields (EXPR_STRUCT [(EXPR_LITERAL LIT_U8, ''f'')])
     \<subseteq> set (interns \<lparr>interns = [''a'', ''f'', ''x'', ''y'']\<rparr>)
   \<and> no_struct_pack (EXPR_LAMBDA [(EXPR_LITERAL LIT_U8, ''y'')] (EXPR_IDENT ''x''))
   \<and> fst (expr_subst length \<lparr>interns = [''a'', ''f'', ''x'', ''y'']\<rparr>
        (EXPR_LAMBDA [(EXPR_LITERAL LIT_U8, ''y'')] (EXPR_IDENT ''x'')) ''x''
        (EXPR_STRUCT [(EXPR_LITERAL LIT_U8, ''f'')]))"
  using expr_subst_ok_without_records
    [where r = "EXPR_STRUCT [(EXPR_LITERAL LIT_U8, ''f'')]"
      and c = "\<lparr>interns = [''a'', ''f'', ''x'', ''y'']\<rparr>" and layout = length
      and e = "EXPR_LAMBDA [(EXPR_LITERAL LIT_U8, ''y'')] (EXPR_IDENT ''x'')" and n = "''x''"]
  by simp


section \<open>Where the loop over the parameters of a binder stops\<close>







text \<open>
  The renaming pass of the two binder cases substitutes into \<open>param_types[i]\<close>, the type
  of the renamed parameter itself, and never into a later parameter type: in
  \<open>y[u8 y, \<lambda>(u8 x) -> y]\<close> the first parameter is renamed when \<open>y\<close> is substituted
  for \<open>x\<close>, and the second parameter type still mentions \<open>y\<close>.
\<close>

lemma func_type_rename_misses_later_types:
  "expr_subst length \<lparr>interns = [''x'', ''y'']\<rparr>
     (EXPR_FUNC_TYPE (EXPR_IDENT ''y'')
        [(EXPR_LITERAL LIT_U8, Some ''y''),
         (EXPR_LAMBDA [(EXPR_LITERAL LIT_U8, ''x'')] (EXPR_IDENT ''y''), None)])
     ''x'' (EXPR_IDENT ''y'')
   = (True,
      EXPR_FUNC_TYPE (EXPR_IDENT ''y'')
        [(EXPR_LITERAL LIT_U8, Some ''y__''),
         (EXPR_LAMBDA [(EXPR_LITERAL LIT_U8, ''x'')] (EXPR_IDENT ''y''), None)],
      \<lparr>interns = [''y__'', ''x'', ''y'']\<rparr>)"
  by (simp add: expr_subst_def expr_func_type_subst_def expr_lambda_subst_def height_max_def
      symbol_set_defs symbol_gensym_def longest_def Let_def)




end
